theory Spec2Isabelle
  imports Main
begin

section \<open>Errors and outcomes\<close>

text \<open>
  The exceptions the modelled code raises. \<open>UserError\<close> stands for an exception raised by
  user code (a job function, a crash manager, an extension policy); its number tells
  user errors apart.
\<close>

datatype error = IndexError | ValueError | KeyError | RuntimeError | UserError nat

text \<open>
  How a call ends in the sequential reading of a single thread: it returns, it raises, or
  it suspends the calling thread (\<open>Blocks\<close>).
\<close>

datatype 'a outcome = Returns 'a | Raises error | Blocks

section \<open>Jobs: \<open>Retry\<close> (jobs.py)\<close>

text \<open>
  A failure bound is an integer or \<open>float("inf")\<close>.
\<close>

datatype bound = Fin int | Infinity

text \<open>\<open>x if x else float("inf")\<close>: \<open>None\<close> and \<open>0\<close> are falsy.\<close>

definition bound_of :: "int option \<Rightarrow> bound" where
  "bound_of p = (case p of None \<Rightarrow> Infinity | Some n \<Rightarrow> (if n = 0 then Infinity else Fin n))"

text \<open>Python's \<open>max(a, b)\<close>: the first argument unless the second is greater.\<close>

fun bound_less :: "bound \<Rightarrow> bound \<Rightarrow> bool" where
  "bound_less (Fin a) (Fin b) = (a < b)"
| "bound_less (Fin a) Infinity = True"
| "bound_less Infinity b = False"

definition pymax :: "bound \<Rightarrow> bound \<Rightarrow> bound" where
  "pymax a b = (if bound_less a b then b else a)"

text \<open>\<open>fails > max_fails\<close>.\<close>

fun exceeds :: "int \<Rightarrow> bound \<Rightarrow> bool" where
  "exceeds fails (Fin m) = (m < fails)"
| "exceeds fails Infinity = False"

text \<open>
  The fields of a \<open>Retry\<close>. \<open>func k\<close> is what the \<open>k\<close>-th invocation of the job function
  does (counted from 0): \<open>Inl e\<close> when it raises \<open>e\<close>, \<open>Inr v\<close> when it returns \<open>v\<close>.
  \<open>cmgr\<close> is the optional crash manager, given by the outcome of
  \<open>self._cmgr.promise(submit, e).result()\<close>: it raises, or it returns \<open>None\<close>, or it
  returns a replacement value.
\<close>

record ('a) retry =
  func :: "nat \<Rightarrow> error + 'a"
  cmgr :: "(error \<Rightarrow> error + 'a option) option"
  max_fails_total :: bound
  max_consecutive_fails :: bound

text \<open>
  \<open>Retry.__init__\<close>. The tuple assignment stores the bound built from the parameter
  \<open>max_consecutive_fails\<close> in \<open>_max_fails_total\<close> and the one built from
  \<open>max_total_fails\<close> in \<open>_max_consecutive_fails\<close>.
\<close>

definition Retry_init ::
  "(nat \<Rightarrow> error + 'a) \<Rightarrow> (error \<Rightarrow> error + 'a option) option \<Rightarrow> int option \<Rightarrow> int option
    \<Rightarrow> 'a retry" where
  "Retry_init fn crash_manager p_max_consecutive_fails p_max_total_fails =
     \<lparr> func = fn, cmgr = crash_manager,
       max_fails_total = bound_of p_max_consecutive_fails,
       max_consecutive_fails = bound_of p_max_total_fails \<rparr>"

text \<open>
  The \<open>while True\<close> loop of \<open>run\<close> inside \<open>Retry.promise\<close>, from the \<open>k\<close>-th invocation on
  with \<open>fails\<close> failures counted so far. The loop need not end: \<open>None\<close> is the run that
  never returns; \<open>Some (Inl e)\<close> is the bare \<open>raise\<close> of the error being handled (or an
  error raised by the crash manager), \<open>Some (Inr v)\<close> a returned value.
\<close>

partial_function (option) run_loop ::
  "'a retry \<Rightarrow> bound \<Rightarrow> nat \<Rightarrow> int \<Rightarrow> (error + 'a) option" where
  "run_loop r max_fails k fails =
     (case func r k of
        Inr v \<Rightarrow> Some (Inr v)
      | Inl e \<Rightarrow>
          (case cmgr r of
             None \<Rightarrow>
               (if exceeds (fails + 1) max_fails then Some (Inl e)
                else run_loop r max_fails (k + 1) (fails + 1))
           | Some cm \<Rightarrow>
               (case cm e of
                  Inl e' \<Rightarrow> Some (Inl e')
                | Inr None \<Rightarrow>
                    (if exceeds (fails + 1) max_fails then Some (Inl e)
                     else run_loop r max_fails (k + 1) (fails + 1))
                | Inr (Some v) \<Rightarrow> Some (Inr v))))"

text \<open>\<open>run\<close>: \<open>max_fails = max(self._max_consecutive_fails, self._max_fails_total)\<close>, \<open>fails = 0\<close>.\<close>

definition run :: "'a retry \<Rightarrow> (error + 'a) option" where
  "run r = run_loop r (pymax (max_consecutive_fails r) (max_fails_total r)) 0 0"

text \<open>
  \<open>promise(submit).result()\<close>: \<open>submit\<close> runs \<open>run\<close> on a worker, and \<open>Promise.result\<close> waits
  for it, re-raises the captured error or returns the value.
\<close>

definition promise_result :: "'a retry \<Rightarrow> (error + 'a) option" where
  "promise_result r = run r"

section \<open>Retry budget\<close>

lemma run_loop_always_fails:
  assumes "\<And>j. func r j = Inl (err j)" and "cmgr r = None" and "fails \<le> m"
  shows "run_loop r (Fin m) k fails = Some (Inl (err (k + nat (m - fails))))"
  using assms(3)
proof (induction "nat (m - fails)" arbitrary: k fails)
  case 0
  then have "fails = m" by simp
  then show ?case
    by (subst run_loop.simps) (simp add: assms(1,2))
next
  case (Suc d)
  then have less: "fails + 1 \<le> m" and d: "d = nat (m - (fails + 1))" by linarith+
  have "run_loop r (Fin m) k fails = run_loop r (Fin m) (k + 1) (fails + 1)"
    using less by (subst run_loop.simps) (simp add: assms(1,2))
  also have "\<dots> = Some (Inl (err (k + 1 + nat (m - (fails + 1)))))"
    using Suc.hyps(1) [OF d less] .
  also have "k + 1 + nat (m - (fails + 1)) = k + nat (m - fails)"
    using less by linarith
  finally show ?case .
qed

lemma run_loop_unbounded_never_returns:
  assumes fails: "\<And>j. \<exists>e. func r j = Inl e" and no_cmgr: "cmgr r = None"
  shows "run_loop r Infinity k fails = None"
proof (rule ccontr)
  assume "run_loop r Infinity k fails \<noteq> None"
  then obtain y where y: "run_loop r Infinity k fails = Some y" by auto
  have "\<not> (r' = r \<and> b = Infinity)" if ret: "run_loop r' b k fails = Some y" for r' b k fails y
  proof (rule run_loop.raw_induct
      [where P = "\<lambda>r' b k fails y. \<not> (r' = r \<and> b = Infinity)", OF _ ret], goal_cases)
    case (1 loop r' b k fails y)
    show ?case
    proof
      assume "r' = r \<and> b = Infinity"
      then have r': "r' = r" and b: "b = Infinity" by simp_all
      obtain e where e: "func r k = Inl e" using fails by blast
      from 1(2) have "loop r Infinity (k + 1) (fails + 1) = Some y"
        unfolding b r' by (simp add: e no_cmgr)
      then show False using 1(1) by blast
    qed
  qed
  with y show False by blast
qed

text \<open>
  C1. The function fails on every invocation (the \<open>k\<close>-th one with \<open>UserError k\<close>) and
  there is no crash manager. \<open>Retry(fn, None, max_consecutive_fails=3, max_total_fails=5)\<close>
  does not escalate once 3 failures are exceeded: \<open>run\<close> takes the maximum of the two
  bounds, so \<open>promise(submit).result()\<close> re-raises the error of the invocation numbered 5,
  the sixth failure.
\<close>

theorem Retry_3_5_escalates_at_sixth_failure:
  "promise_result (Retry_init (\<lambda>k. Inl (UserError k)) None (Some 3) (Some 5) :: unit retry)
     = Some (Inl (UserError 5))"
proof -
  let ?r = "Retry_init (\<lambda>k. Inl (UserError k)) None (Some 3) (Some 5) :: unit retry"
  have "run_loop ?r (Fin 5) 0 0 = Some (Inl (UserError (0 + nat (5 - 0))))"
    by (rule run_loop_always_fails) (simp_all add: Retry_init_def)
  then show ?thesis
    by (simp add: promise_result_def run_def Retry_init_def bound_of_def pymax_def)
qed

section \<open>The native mutex\<close>

text \<open>
  Mutexes live in a store: \<open>held st l\<close> is the flag of the mutex \<open>l\<close>, and \<open>fresh st\<close> is the
  next mutex that \<open>MutexLock()\<close> hands out.
\<close>

type_synonym lock_id = nat

record mutex_store =
  held :: "lock_id \<Rightarrow> bool"
  fresh :: lock_id

text \<open>
  Modelled from the spec: \<open>coil_core.MutexLock\<close>, the native mutex behind \<open>Lock\<close>, is not
  among the sources. The spec gives a mutual-exclusion handle with an observable
  \<open>locked\<close> flag, whose \<open>acquire\<close> blocks until the mutex is free and then takes it, and
  which is not reentrant. What the native \<open>release\<close> does on a mutex that is free is not
  in the sources: it is the parameter \<open>rf\<close> (\<open>Returns ()\<close> for a native no-op,
  \<open>Raises e\<close> for a native error).
\<close>

definition MutexLock_new :: "mutex_store \<Rightarrow> lock_id \<times> mutex_store" where
  "MutexLock_new st = (fresh st, st\<lparr>held := (held st)(fresh st := False), fresh := fresh st + 1\<rparr>)"

definition MutexLock_acquire :: "lock_id \<Rightarrow> mutex_store \<Rightarrow> unit outcome \<times> mutex_store" where
  "MutexLock_acquire l st =
     (if held st l then (Blocks, st) else (Returns (), st\<lparr>held := (held st)(l := True)\<rparr>))"

definition MutexLock_release ::
  "unit outcome \<Rightarrow> lock_id \<Rightarrow> mutex_store \<Rightarrow> unit outcome \<times> mutex_store" where
  "MutexLock_release rf l st =
     (if held st l then (Returns (), st\<lparr>held := (held st)(l := False)\<rparr>) else (rf, st))"

definition MutexLock_get_locked :: "lock_id \<Rightarrow> mutex_store \<Rightarrow> bool" where
  "MutexLock_get_locked l st = held st l"

section \<open>\<open>Lock\<close> (cogs.py, sync.py)\<close>

text \<open>
  The objects whose truth value the code tests: a bound method (an object without
  \<open>__bool__\<close> or \<open>__len__\<close> is true) and a \<open>bool\<close>.
\<close>

datatype pyobj = Bound_method | Bool bool

fun truthy :: "pyobj \<Rightarrow> bool" where
  "truthy Bound_method = True"
| "truthy (Bool b) = b"

definition Lock_new :: "mutex_store \<Rightarrow> lock_id \<times> mutex_store" where
  "Lock_new st = MutexLock_new st"

definition Lock_acquire :: "lock_id \<Rightarrow> mutex_store \<Rightarrow> unit outcome \<times> mutex_store" where
  "Lock_acquire l st = MutexLock_acquire l st"

definition get_locked :: "lock_id \<Rightarrow> mutex_store \<Rightarrow> bool" where
  "get_locked l st = MutexLock_get_locked l st"

text \<open>
  \<open>Lock.release\<close>. The guard is \<open>if not self.get_locked:\<close>, the method itself, not its
  call.
\<close>

definition Lock_release ::
  "unit outcome \<Rightarrow> lock_id \<Rightarrow> mutex_store \<Rightarrow> unit outcome \<times> mutex_store" where
  "Lock_release rf l st =
     (if \<not> truthy Bound_method then (Returns (), st) else MutexLock_release rf l st)"

text \<open>The property \<open>locked\<close> of sync.py's \<open>Lock\<close>.\<close>

definition locked :: "lock_id \<Rightarrow> mutex_store \<Rightarrow> bool" where
  "locked l st = get_locked l st"

section \<open>\<open>Notification\<close> (sync.py)\<close>

text \<open>
  A \<open>Notification\<close> is its deque \<open>_waiters\<close> of locks, the left end first. Every operation
  works on the deque and the mutex store.
\<close>

type_synonym notification = "lock_id list"

text \<open>
  \<open>wait\<close>: a new lock is acquired, appended, and acquired again, which suspends the caller.
\<close>

definition wait :: "notification \<times> mutex_store \<Rightarrow> unit outcome \<times> (notification \<times> mutex_store)" where
  "wait s =
     (case s of (ws, st) \<Rightarrow>
        (case Lock_new st of (lock, st1) \<Rightarrow>
           (case Lock_acquire lock st1 of
              (Returns u, st2) \<Rightarrow>
                (case Lock_acquire lock st2 of (out, st3) \<Rightarrow> (out, (ws @ [lock], st3)))
            | (out, st2) \<Rightarrow> (out, (ws, st2)))))"

text \<open>
  The loop \<open>for _ in range(count): self._waiters.popleft().release()\<close>; \<open>popleft\<close> of an
  empty deque raises \<open>IndexError\<close>.
\<close>

fun notify_loop ::
  "unit outcome \<Rightarrow> nat \<Rightarrow> notification \<times> mutex_store
    \<Rightarrow> unit outcome \<times> (notification \<times> mutex_store)" where
  "notify_loop rf 0 s = (Returns (), s)"
| "notify_loop rf (Suc n) ([], st) = (Raises IndexError, ([], st))"
| "notify_loop rf (Suc n) (w # ws, st) =
     (case Lock_release rf w st of
        (Returns u, st') \<Rightarrow> notify_loop rf n (ws, st')
      | (out, st') \<Rightarrow> (out, (ws, st')))"

text \<open>\<open>notify(count)\<close>; \<open>range(count)\<close> is empty for a negative \<open>count\<close>.\<close>

definition notify ::
  "unit outcome \<Rightarrow> int \<Rightarrow> notification \<times> mutex_store
    \<Rightarrow> unit outcome \<times> (notification \<times> mutex_store)" where
  "notify rf count s =
     (if length (fst s) = 0 then (Returns (), s) else notify_loop rf (nat count) s)"

definition notify_one ::
  "unit outcome \<Rightarrow> notification \<times> mutex_store \<Rightarrow> unit outcome \<times> (notification \<times> mutex_store)" where
  "notify_one rf s = notify rf 1 s"

definition notify_all ::
  "unit outcome \<Rightarrow> notification \<times> mutex_store \<Rightarrow> unit outcome \<times> (notification \<times> mutex_store)" where
  "notify_all rf s = notify rf (int (length (fst s))) s"

section \<open>\<open>Queue\<close> (sync.py)\<close>

datatype policy = RAISE | BLOCK | DROP

record 'a queue =
  inner :: "'a list"
  maxlen :: "nat option"
  overflow_behavior :: policy
  added_element :: notification
  popped_element :: notification
  qlock :: lock_id

text \<open>
  \<open>deque.append\<close> on a deque with \<open>maxlen\<close>: the item is appended on the right, and when the
  deque is then longer than \<open>maxlen\<close> one item is removed from the left.
\<close>

definition deque_append :: "nat option \<Rightarrow> 'a list \<Rightarrow> 'a \<Rightarrow> 'a list" where
  "deque_append ml xs x =
     (case ml of
        None \<Rightarrow> xs @ [x]
      | Some m \<Rightarrow> (if m < length (xs @ [x]) then tl (xs @ [x]) else xs @ [x]))"

text \<open>\<open>len(self._inner) == self._inner.maxlen\<close>; an \<open>int\<close> never equals \<open>None\<close>.\<close>

definition is_full :: "'a queue \<Rightarrow> bool" where
  "is_full q = (case maxlen q of None \<Rightarrow> False | Some m \<Rightarrow> length (inner q) = m)"

text \<open>
  The body of \<open>add\<close> under the lock. Under \<open>BLOCK\<close> a full queue waits on
  \<open>_popped_element\<close> and goes on to the append when it is woken; under \<open>RAISE\<close> it raises;
  any other policy passes on to the append.
\<close>

definition add_append :: "unit outcome \<Rightarrow> 'a \<Rightarrow> 'a queue \<times> mutex_store
    \<Rightarrow> unit outcome \<times> ('a queue \<times> mutex_store)" where
  "add_append rf item s =
     (case s of (q, st) \<Rightarrow>
        (case notify_one rf (added_element q, st) of
           (out, (ws, st')) \<Rightarrow>
             (out, (q\<lparr>inner := deque_append (maxlen q) (inner q) item, added_element := ws\<rparr>, st'))))"

definition add_body :: "unit outcome \<Rightarrow> 'a \<Rightarrow> 'a queue \<times> mutex_store
    \<Rightarrow> unit outcome \<times> ('a queue \<times> mutex_store)" where
  "add_body rf item s =
     (case s of (q, st) \<Rightarrow>
        (if is_full q then
           (case overflow_behavior q of
              BLOCK \<Rightarrow>
                (case wait (popped_element q, st) of
                   (Returns u, (ws, st')) \<Rightarrow> add_append rf item (q\<lparr>popped_element := ws\<rparr>, st')
                 | (out, (ws, st')) \<Rightarrow> (out, (q\<lparr>popped_element := ws\<rparr>, st')))
            | RAISE \<Rightarrow> (Raises ValueError, (q, st))
            | DROP \<Rightarrow> add_append rf item (q, st))
         else add_append rf item (q, st)))"

text \<open>
  \<open>add\<close>: \<open>with self._lock:\<close> acquires the queue's lock, runs the body, and releases the
  lock when the body returns or raises. A suspended body has not left the block.
\<close>

definition add :: "unit outcome \<Rightarrow> 'a \<Rightarrow> 'a queue \<times> mutex_store
    \<Rightarrow> unit outcome \<times> ('a queue \<times> mutex_store)" where
  "add rf item s =
     (case s of (q, st) \<Rightarrow>
        (case Lock_acquire (qlock q) st of
           (Returns u, st1) \<Rightarrow>
             (case add_body rf item (q, st1) of
                (Blocks, s2) \<Rightarrow> (Blocks, s2)
              | (out, (q2, st2)) \<Rightarrow>
                  (case Lock_release rf (qlock q2) st2 of
                     (Returns u, st3) \<Rightarrow> (out, (q2, st3))
                   | (out', st3) \<Rightarrow> (out', (q2, st3))))
         | (out, st1) \<Rightarrow> (out, (q, st1))))"

text \<open>\<open>pop\<close>: waits on \<open>_added_element\<close> when the deque is empty, then \<open>popleft\<close>.\<close>

definition pop :: "unit outcome \<Rightarrow> 'a queue \<times> mutex_store
    \<Rightarrow> 'a outcome \<times> ('a queue \<times> mutex_store)" where
  "pop rf s =
     (case s of (q, st) \<Rightarrow>
        (case (if length (inner q) = 0 then wait (added_element q, st)
               else (Returns (), (added_element q, st))) of
           (Returns u, (ws, st1)) \<Rightarrow>
             (case inner q of
                [] \<Rightarrow> (Raises IndexError, (q\<lparr>added_element := ws\<rparr>, st1))
              | obj # rest \<Rightarrow>
                  (case notify_one rf (popped_element q, st1) of
                     (Returns u, (ps, st2)) \<Rightarrow>
                       (Returns obj, (q\<lparr>inner := rest, added_element := ws, popped_element := ps\<rparr>, st2))
                   | (Raises e, (ps, st2)) \<Rightarrow>
                       (Raises e, (q\<lparr>inner := rest, added_element := ws, popped_element := ps\<rparr>, st2))
                   | (Blocks, (ps, st2)) \<Rightarrow>
                       (Blocks, (q\<lparr>inner := rest, added_element := ws, popped_element := ps\<rparr>, st2))))
         | (Raises e, (ws, st1)) \<Rightarrow> (Raises e, (q\<lparr>added_element := ws\<rparr>, st1))
         | (Blocks, (ws, st1)) \<Rightarrow> (Blocks, (q\<lparr>added_element := ws\<rparr>, st1))))"

section \<open>Releasing a lock that is not held\<close>

lemma Lock_release_is_native_release: "Lock_release rf l st = MutexLock_release rf l st"
  by (simp add: Lock_release_def)




text \<open>
  Whatever the native \<open>release\<close> does on a free mutex (the outcome \<open>rf\<close>), the lock is
  unlocked after \<open>acquire; release; release\<close>; the third outcome is the native one.
\<close>

lemma acquire_release_release:
  assumes "\<not> held st l"
  shows "(case Lock_acquire l st of (out1, st1) \<Rightarrow>
           (case Lock_release rf l st1 of (out2, st2) \<Rightarrow>
              (case Lock_release rf l st2 of (out3, st3) \<Rightarrow>
                 (out1, out2, out3, locked l st3))))
         = (Returns (), Returns (), rf, False)"
  using assms
  by (simp add: Lock_acquire_def MutexLock_acquire_def Lock_release_def MutexLock_release_def
      locked_def get_locked_def MutexLock_get_locked_def)

section \<open>Waking waiters\<close>

text \<open>Releasing the locks \<open>ws\<close>, all of them held.\<close>

definition release_all :: "lock_id list \<Rightarrow> mutex_store \<Rightarrow> mutex_store" where
  "release_all ws st = st\<lparr>held := (\<lambda>l. if l \<in> set ws then False else held st l)\<rparr>"

lemma release_all_Nil: "release_all [] st = st"
  by (simp add: release_all_def)

lemma release_all_Cons:
  "release_all ws (st\<lparr>held := (held st)(w := False)\<rparr>) = release_all (w # ws) st"
  by (auto simp: release_all_def fun_eq_iff)

lemma notify_loop_wakes:
  assumes "distinct ws" and "\<forall>w \<in> set ws. held st w"
  shows "notify_loop rf n (ws, st) =
           (if n \<le> length ws then Returns () else Raises IndexError,
            (drop n ws, release_all (take n ws) st))"
  using assms
proof (induction n arbitrary: ws st)
  case 0
  then show ?case by (simp add: release_all_Nil)
next
  case (Suc n)
  show ?case
  proof (cases ws)
    case Nil
    then show ?thesis by (simp add: release_all_Nil)
  next
    case (Cons w ws')
    let ?st = "st\<lparr>held := (held st)(w := False)\<rparr>"
    have rel: "Lock_release rf w st = (Returns (), ?st)"
      using Suc.prems(2) Cons by (simp add: Lock_release_def MutexLock_release_def)
    have "distinct ws'" and "\<forall>v \<in> set ws'. held ?st v"
      using Suc.prems Cons by auto
    then have "notify_loop rf n (ws', ?st) =
        (if n \<le> length ws' then Returns () else Raises IndexError,
         (drop n ws', release_all (take n ws') ?st))"
      by (rule Suc.IH)
    then show ?thesis
      using Cons rel by (simp add: release_all_Cons)
  qed
qed

text \<open>
  C4. A \<open>Notification\<close> with one waiter \<open>w\<close>, whose lock is held: \<open>notify(2)\<close> wakes \<open>w\<close> and
  removes it, and then fails with \<open>IndexError\<close> on the \<open>popleft\<close> of the empty deque.
\<close>

theorem notify_two_with_one_waiter_raises:
  "notify rf 2 ([w], st\<lparr>held := (held st)(w := True)\<rparr>)
     = (Raises IndexError, ([], st\<lparr>held := (held st)(w := False)\<rparr>))"
proof -
  have "notify_loop rf (Suc (Suc 0)) ([w], st\<lparr>held := (held st)(w := True)\<rparr>)
     = (Raises IndexError, ([], st\<lparr>held := (held st)(w := False)\<rparr>))"
    by (simp add: Lock_release_def MutexLock_release_def)
  then show ?thesis
    by (simp add: notify_def eval_nat_numeral)
qed

lemma notify_within_waiters:
  assumes "distinct ws" and "\<forall>w \<in> set ws. held st w" and "0 \<le> n" and "nat n \<le> length ws"
  shows "notify rf n (ws, st) = (Returns (), (drop (nat n) ws, release_all (take (nat n) ws) st))"
  using assms by (cases ws) (simp_all add: notify_def notify_loop_wakes release_all_Nil)

lemma notify_beyond_waiters:
  assumes "distinct ws" and "\<forall>w \<in> set ws. held st w" and "ws \<noteq> []" and "length ws < nat n"
  shows "notify rf n (ws, st) = (Raises IndexError, ([], release_all ws st))"
  using assms by (simp add: notify_def notify_loop_wakes)

lemma notify_all_returns:
  assumes "distinct ws" and "\<forall>w \<in> set ws. held st w"
  shows "notify_all rf (ws, st) = (Returns (), ([], release_all ws st))"
  using assms by (cases ws) (simp_all add: notify_all_def notify_def notify_loop_wakes release_all_Nil)

section \<open>A full queue\<close>

lemma length_deque_append:
  "length xs \<le> cap \<Longrightarrow> length (deque_append (Some cap) xs x) \<le> cap"
  by (simp add: deque_append_def)

lemma add_append_inner:
  "inner (fst (snd (add_append rf item (q, st)))) = deque_append (maxlen q) (inner q) item"
  by (simp add: add_append_def split: prod.splits)

lemma add_inner:
  "inner (fst (snd (add rf item (q, st)))) =
     (if held st (qlock q) then inner q
      else inner (fst (snd (add_body rf item (q, st\<lparr>held := (held st)(qlock q := True)\<rparr>)))))"
  by (simp add: add_def Lock_acquire_def MutexLock_acquire_def split: prod.splits outcome.splits)

lemma add_body_inner:
  "inner (fst (snd (add_body rf item (q, st)))) =
     (if is_full q \<and> overflow_behavior q \<noteq> DROP then inner q
      else deque_append (maxlen q) (inner q) item)"
  by (cases "overflow_behavior q")
    (simp_all add: add_body_def add_append_inner wait_def Lock_new_def MutexLock_new_def
      Lock_acquire_def MutexLock_acquire_def split: prod.splits outcome.splits)

definition full_queue :: "policy \<Rightarrow> nat queue" where
  "full_queue p = \<lparr>inner = [1, 2], maxlen = Some 2, overflow_behavior = p,
      added_element = [], popped_element = [], qlock = 0\<rparr>"

definition one_free_lock :: mutex_store where
  "one_free_lock = \<lparr>held = (\<lambda>l. False), fresh = 1\<rparr>"

text \<open>A queue at capacity with one thread waiting for an element, and its lock store.\<close>

definition awaited_queue :: "policy \<Rightarrow> nat queue" where
  "awaited_queue p = \<lparr>inner = [1, 2], maxlen = Some 2, overflow_behavior = p,
      added_element = [1], popped_element = [], qlock = 0\<rparr>"

definition one_waiter :: mutex_store where
  "one_waiter = \<lparr>held = (\<lambda>l. l = 1), fresh = 2\<rparr>"

text \<open>
  C8 (as amended). A queue at capacity, \<open>len == cap\<close>, whose own lock is free. Under
  \<open>RAISE\<close>, \<open>add\<close> raises \<open>ValueError\<close> and nothing changes. Under \<open>DROP\<close> the incoming item
  is appended and the bounded deque drops its oldest element: the new contents are the
  old ones without their first element, followed by the item (the empty deque again
  when \<open>cap = 0\<close>); and this happens silently: when the threads waiting for an element
  hold their locks, as \<open>wait\<close> leaves them, \<open>add\<close> returns without raising, having
  changed nothing but the contents and woken the first of those threads. Under every
  policy the length stays at most \<open>cap\<close>.
\<close>

theorem add_at_capacity:
  assumes "maxlen q = Some cap" and "length (inner q) = cap" and "\<not> held st (qlock q)"
  shows "(overflow_behavior q = RAISE \<longrightarrow> add rf item (q, st) = (Raises ValueError, (q, st)))
       \<and> (overflow_behavior q = DROP \<longrightarrow>
            inner (fst (snd (add rf item (q, st)))) = tl (inner q @ [item]))
       \<and> (overflow_behavior q = DROP \<and> (\<forall>w \<in> set (added_element q). held st w) \<longrightarrow>
            add rf item (q, st)
              = (Returns (),
                 (q\<lparr>inner := tl (inner q @ [item]), added_element := drop 1 (added_element q)\<rparr>,
                  release_all (take 1 (added_element q)) st)))
       \<and> length (inner (fst (snd (add rf item (q, st))))) \<le> cap"
proof (intro conjI impI)
  assume "overflow_behavior q = RAISE"
  then have "add_body rf item (q, st\<lparr>held := (held st)(qlock q := True)\<rparr>)
      = (Raises ValueError, (q, st\<lparr>held := (held st)(qlock q := True)\<rparr>))"
    using assms by (simp add: add_body_def is_full_def)
  moreover have "(held st)(qlock q := False) = held st"
    using assms(3) by (simp add: fun_eq_iff)
  ultimately show "add rf item (q, st) = (Raises ValueError, (q, st))"
    using assms(3)
    by (simp add: add_def Lock_acquire_def MutexLock_acquire_def Lock_release_def
        MutexLock_release_def)
next
  assume "overflow_behavior q = DROP"
  then show "inner (fst (snd (add rf item (q, st)))) = tl (inner q @ [item])"
    using assms by (simp add: add_inner add_body_inner deque_append_def)
next
  assume drop: "overflow_behavior q = DROP \<and> (\<forall>w \<in> set (added_element q). held st w)"
  let ?st1 = "st\<lparr>held := (held st)(qlock q := True)\<rparr>"
  let ?q' = "q\<lparr>inner := tl (inner q @ [item]), added_element := drop 1 (added_element q)\<rparr>"
  have app: "deque_append (Some cap) (inner q) item = tl (inner q @ [item])"
    using assms by (simp add: deque_append_def)
  show "add rf item (q, st) = (Returns (), (?q', release_all (take 1 (added_element q)) st))"
  proof (cases "added_element q")
    case Nil
    have "add_body rf item (q, ?st1) = (Returns (), (?q', ?st1))"
      using drop assms Nil
      by (simp add: add_body_def is_full_def add_append_def notify_one_def notify_def app)
    moreover have "(held st)(qlock q := False) = held st"
      using assms(3) by (simp add: fun_eq_iff)
    ultimately show ?thesis
      using assms(3) Nil
      by (simp add: add_def Lock_acquire_def MutexLock_acquire_def Lock_release_def
          MutexLock_release_def release_all_def)
  next
    case (Cons w ws)
    then have w: "held st w" "w \<noteq> qlock q" using drop assms(3) by auto
    let ?st2 = "?st1\<lparr>held := (held ?st1)(w := False)\<rparr>"
    have "notify_one rf (added_element q, ?st1) = (Returns (), (ws, ?st2))"
      using Cons w
      by (simp add: notify_one_def notify_def Lock_release_def MutexLock_release_def)
    then have "add_body rf item (q, ?st1) = (Returns (), (?q', ?st2))"
      using drop assms Cons
      by (simp add: add_body_def is_full_def add_append_def app)
    moreover have "st\<lparr>held := (held st)(qlock q := True, w := False, qlock q := False)\<rparr>
        = release_all [w] st"
      using assms(3) w by (auto simp: release_all_def fun_eq_iff)
    ultimately show ?thesis
      using assms(3) Cons w
      by (simp add: add_def Lock_acquire_def MutexLock_acquire_def Lock_release_def
          MutexLock_release_def)
  qed
next
  show "length (inner (fst (snd (add rf item (q, st))))) \<le> cap"
    using assms by (simp add: add_inner add_body_inner deque_append_def)
qed

theorem add_at_capacity_witness:
  "add (Returns ()) 3 (full_queue RAISE, one_free_lock)
      = (Raises ValueError, (full_queue RAISE, one_free_lock))
   \<and> inner (fst (snd (add (Returns ()) 3 (full_queue DROP, one_free_lock)))) = [2, 3]
   \<and> add (Raises RuntimeError) 3 (awaited_queue DROP, one_waiter)
      = (Returns (), ((awaited_queue DROP)\<lparr>inner := [2, 3], added_element := []\<rparr>,
                      one_waiter\<lparr>held := (\<lambda>l. False)\<rparr>))
   \<and> length (inner (fst (snd (add (Returns ()) 3 (full_queue BLOCK, one_free_lock))))) \<le> 2"
proof -
  have "release_all [1] one_waiter = one_waiter\<lparr>held := (\<lambda>l. False)\<rparr>"
    by (simp add: release_all_def one_waiter_def fun_eq_iff)
  then show ?thesis
    using add_at_capacity [of "full_queue RAISE" 2 one_free_lock "Returns ()" 3]
      add_at_capacity [of "full_queue DROP" 2 one_free_lock "Returns ()" 3]
      add_at_capacity [of "awaited_queue DROP" 2 one_waiter "Raises RuntimeError" 3]
      add_at_capacity [of "full_queue BLOCK" 2 one_free_lock "Returns ()" 3]
    by (simp add: full_queue_def one_free_lock_def awaited_queue_def one_waiter_def)
qed

text \<open>
  The claim C8 as stated fails: a queue \<open>[1, 2]\<close> of capacity 2 under \<open>DROP\<close> does not keep
  its queued elements when 3 is added.
\<close>

theorem add_DROP_changes_queued_elements:
  "inner (fst (snd (add (Returns ()) 3 (full_queue DROP, one_free_lock)))) \<noteq> inner (full_queue DROP)"
  by (simp add: add_inner add_body_inner deque_append_def full_queue_def one_free_lock_def is_full_def)

section \<open>Group names (mailbox.py)\<close>

text \<open>\<open>name.split("/")\<close>, \<open>"/".join(parts)\<close> and \<open>list(filter(None, name.split("/")))\<close>.\<close>

fun split_on :: "char \<Rightarrow> string \<Rightarrow> string list" where
  "split_on c [] = [[]]"
| "split_on c (x # xs) =
     (if x = c then [] # split_on c xs
      else (case split_on c xs of
              p # ps \<Rightarrow> (x # p) # ps
            | [] \<Rightarrow> [[x]]))"

fun join :: "string \<Rightarrow> string list \<Rightarrow> string" where
  "join sep [] = []"
| "join sep [p] = p"
| "join sep (p # q # ps) = p @ sep @ join sep (q # ps)"

definition canonical_parts :: "string \<Rightarrow> string list" where
  "canonical_parts nm = filter (\<lambda>p. p \<noteq> []) (split_on CHR ''/'' nm)"

definition canonical :: "string \<Rightarrow> string" where
  "canonical nm = join ''/'' (canonical_parts nm)"

section \<open>Group objects (mailbox.py)\<close>

text \<open>
  \<open>Group\<close> objects live in a heap: \<open>objs h a\<close> is the object at address \<open>a\<close>, \<open>next_obj h\<close>
  the address of the next object that \<open>super().__new__(cls)\<close> creates, and \<open>groups h\<close> the
  class attribute \<open>Group.groups\<close>. \<open>Group\<close> defines \<open>__hash__\<close> (the hash of the canonical
  name, \<open>gid\<close>) and no \<open>__eq__\<close>: as a key of a \<open>dict\<close> and as a member of a \<open>set\<close> or a
  \<open>list\<close> a \<open>Group\<close> is its address. The \<open>children\<close> set is a list without repetitions, in
  the order of insertion.
\<close>

type_synonym addr = nat

record group_obj =
  gid :: int
  parent :: "addr option"
  children :: "addr list"
  name :: string

record group_heap =
  objs :: "addr \<Rightarrow> group_obj"
  next_obj :: addr
  groups :: "string \<rightharpoonup> addr"

definition children_add :: "addr \<Rightarrow> addr \<Rightarrow> group_heap \<Rightarrow> group_heap" where
  "children_add a self h =
     (if self \<in> set (children (objs h a)) then h
      else h\<lparr>objs := (objs h)(a := (objs h a)\<lparr>children := children (objs h a) @ [self]\<rparr>)\<rparr>)"

definition set_parent :: "addr \<Rightarrow> addr \<Rightarrow> group_heap \<Rightarrow> group_heap" where
  "set_parent self p h = h\<lparr>objs := (objs h)(self := (objs h self)\<lparr>parent := Some p\<rparr>)\<rparr>"

lemma split_on_not_Nil [simp]: "split_on c xs \<noteq> []"
  by (induction xs) (auto split: list.splits)

lemma split_on_no_sep: "c \<notin> set p \<Longrightarrow> split_on c p = [p]"
  by (induction p) auto

lemma split_on_append_sep:
  "c \<notin> set p \<Longrightarrow> split_on c (p @ c # rest) = p # split_on c rest"
  by (induction p) auto

lemma split_on_parts_no_sep: "p \<in> set (split_on c xs) \<Longrightarrow> c \<notin> set p"
  by (induction xs arbitrary: p) (auto split: if_splits list.splits)

text \<open>A segment of a canonical name: not empty, without a slash.\<close>

definition segment :: "string \<Rightarrow> bool" where
  "segment p = (p \<noteq> [] \<and> CHR ''/'' \<notin> set p)"

lemma canonical_parts_segments: "p \<in> set (canonical_parts nm) \<Longrightarrow> segment p"
  by (auto simp: canonical_parts_def segment_def dest: split_on_parts_no_sep)

lemma canonical_parts_join:
  "(\<And>p. p \<in> set ps \<Longrightarrow> segment p) \<Longrightarrow> canonical_parts (join ''/'' ps) = ps"
proof (induction ps)
  case Nil
  then show ?case by (simp add: canonical_parts_def)
next
  case (Cons p ps)
  have p: "segment p" using Cons.prems by simp
  show ?case
  proof (cases ps)
    case Nil
    then show ?thesis using p by (simp add: canonical_parts_def segment_def split_on_no_sep)
  next
    case (Cons q qs)
    have "canonical_parts (join ''/'' ps) = ps"
      using Cons.prems by (intro Cons.IH) simp
    then show ?thesis
      using p Cons by (simp add: canonical_parts_def segment_def split_on_append_sep)
  qed
qed

lemma join_snoc: "ps \<noteq> [] \<Longrightarrow> join sep (ps @ [q]) = join sep ps @ sep @ q"
  by (induction sep ps rule: join.induct) auto

lemma canonical_parts_wildcard:
  assumes "\<And>p. p \<in> set ps \<Longrightarrow> segment p"
  shows "canonical_parts (join ''/'' ps @ ''/...'') = ps @ [''...'']"
proof (cases "ps = []")
  case True
  then show ?thesis by (simp add: canonical_parts_def)
next
  case False
  then have "join ''/'' ps @ ''/...'' = join ''/'' (ps @ [''...''])"
    by (simp add: join_snoc)
  moreover have "canonical_parts (join ''/'' (ps @ [''...''])) = ps @ [''...'']"
    using assms by (intro canonical_parts_join) (auto simp: segment_def)
  ultimately show ?thesis by simp
qed

text \<open>The measure of the recursion of \<open>Group\<close>: a wildcard name ranks below its siblings.\<close>

definition name_rank :: "string \<Rightarrow> nat" where
  "name_rank nm =
     2 * length (canonical_parts nm) + (if last (canonical_parts nm) = ''...'' then 0 else 1)"

lemma name_rank_prefix:
  assumes "idx \<in> set [1..<length (canonical_parts nm)]"
  shows "name_rank (join ''/'' (take idx (canonical_parts nm))) < name_rank nm"
proof -
  have "canonical_parts (join ''/'' (take idx (canonical_parts nm))) = take idx (canonical_parts nm)"
    by (intro canonical_parts_join) (auto dest: in_set_takeD canonical_parts_segments)
  then show ?thesis using assms by (simp add: name_rank_def)
qed

lemma name_rank_wildcard:
  assumes "1 < length (canonical_parts nm)" and "last (canonical_parts nm) \<noteq> ''...''"
  shows "name_rank (join ''/'' (butlast (canonical_parts nm)) @ ''/...'') < name_rank nm"
proof -
  have "canonical_parts (join ''/'' (butlast (canonical_parts nm)) @ ''/...'')
      = butlast (canonical_parts nm) @ [''...'']"
    by (intro canonical_parts_wildcard) (auto dest: in_set_butlastD canonical_parts_segments)
  then show ?thesis using assms by (simp add: name_rank_def)
qed

text \<open>
  \<open>Group(name)\<close>: \<open>__new__\<close> followed by \<open>__init__\<close>. \<open>__new__\<close> looks the name up in
  \<open>Group.groups\<close>; no statement of the module stores anything there. \<open>__init__\<close> sets the
  attributes, builds a \<open>Group\<close> for every strict prefix and adds \<open>self\<close> to its children,
  and gives a name of several segments that does not end in \<open>...\<close> the wildcard
  \<open>Group\<close> of its prefix as parent. \<open>parts[-1]\<close> raises \<open>IndexError\<close> for a name without
  segments. \<open>hash\<close> is Python's string hash.
\<close>

function Group_new :: "(string \<Rightarrow> int) \<Rightarrow> string \<Rightarrow> group_heap \<Rightarrow> (error + addr) \<times> group_heap" where
  "Group_new hash nm h =
     (case groups h nm of
        Some a \<Rightarrow> (Inr a, h)
      | None \<Rightarrow>
          (let parts = canonical_parts nm;
               self = next_obj h;
               h1 = h\<lparr>objs := (objs h)(self :=
                        \<lparr>gid = hash (join ''/'' parts), parent = None, children = [],
                         name = join ''/'' parts\<rparr>),
                      next_obj := self + 1\<rparr>;
               looped = fold (\<lambda>idx acc.
                   (case acc of
                      (Some e, h') \<Rightarrow> (Some e, h')
                    | (None, h') \<Rightarrow>
                        (case Group_new hash (join ''/'' (take idx parts)) h' of
                           (Inl e, h'') \<Rightarrow> (Some e, h'')
                         | (Inr a, h'') \<Rightarrow> (None, children_add a self h''))))
                 [1..<length parts] (None, h1)
           in (case looped of
                 (Some e, h2) \<Rightarrow> (Inl e, h2)
               | (None, h2) \<Rightarrow>
                   (if parts = [] then (Inl IndexError, h2)
                    else if 1 < length parts \<and> last parts \<noteq> ''...'' then
                      (case Group_new hash (join ''/'' (butlast parts) @ ''/...'') h2 of
                         (Inl e, h3) \<Rightarrow> (Inl e, h3)
                       | (Inr p, h3) \<Rightarrow> (Inr self, set_parent self p h3))
                    else (Inr self, h2)))))"
  by pat_completeness auto
termination
proof (relation "measure (\<lambda>(hash, nm, h). name_rank nm)", goal_cases)
  case 1
  show ?case by simp
next
  case 2
  then show ?case by (simp add: name_rank_prefix)
next
  case 3
  then show ?case by (simp add: name_rank_wildcard)
qed

declare Group_new.simps [simp del]

definition empty_heap :: group_heap where
  "empty_heap = \<lparr>objs = (\<lambda>a. \<lparr>gid = 0, parent = None, children = [], name = []\<rparr>),
     next_obj = 0, groups = Map.empty\<rparr>"


section \<open>Mailboxes and the bus (mailbox.py)\<close>

text \<open>
  A mailbox is its deque \<open>messages\<close> (left end first) and the waiters of its
  \<open>_notification\<close>. An extension is its policy \<open>message_sent_in_group\<close>: it raises, returns
  \<open>None\<close>, or returns a response. The bus is what \<open>send\<close> reads: the heap of groups, the
  table \<open>Group.extensions\<close> and the table \<open>Mailbox.chats\<close>, a \<open>dict\<close> from groups to sets of
  mailboxes (the sets as lists without repetitions). What \<open>send\<close> changes is the mailboxes
  and the mutexes of their waiters; \<open>calls\<close> logs every invocation of an extension policy,
  with the group it is registered for and the content it is given.
\<close>

type_synonym mbox = nat

record 'c message =
  group :: addr
  content :: 'c

record 'c mailbox =
  messages :: "'c message list"
  notification :: notification

record 'c response =
  cancel :: bool
  forward_to :: "addr list"
  data_transform :: "'c \<Rightarrow> 'c"

definition MessageSentInGroup :: "'c response" where
  "MessageSentInGroup = \<lparr>cancel = False, forward_to = [], data_transform = (\<lambda>x. x)\<rparr>"

type_synonym 'c extension = "'c \<Rightarrow> error + 'c response option"

record 'c bus =
  heap :: group_heap
  extensions :: "addr \<rightharpoonup> 'c extension"
  chats :: "(addr \<times> mbox list) list"

record 'c dyn =
  boxes :: "mbox \<Rightarrow> 'c mailbox"
  locks :: mutex_store
  calls :: "(addr \<times> 'c) list"

definition subscribe :: "mbox \<Rightarrow> addr \<Rightarrow> (addr \<times> mbox list) list \<Rightarrow> (addr \<times> mbox list) list" where
  "subscribe box g ch =
     (case map_of ch g of
        None \<Rightarrow> ch @ [(g, [box])]
      | Some bs \<Rightarrow>
          map (\<lambda>(k, v). if k = g then (k, if box \<in> set v then v else v @ [box]) else (k, v)) ch)"


text \<open>
  The loop \<open>while current_group is not None\<close> of \<open>send\<close>: the nearest group, from \<open>group\<close> up
  the parents, that has an extension. The loop does not end on a cycle of parents.
\<close>

partial_function (option) find_extension ::
  "'c bus \<Rightarrow> addr option \<Rightarrow> (addr \<times> 'c extension) option option" where
  "find_extension b current_group =
     (case current_group of
        None \<Rightarrow> Some None
      | Some g \<Rightarrow>
          (case extensions b g of
             Some ext \<Rightarrow> Some (Some (g, ext))
           | None \<Rightarrow> find_extension b (parent (objs (heap b) g))))"

declare find_extension.simps [code]

text \<open>The policy of the extension found, or the default response.\<close>

definition consult ::
  "(addr \<times> 'c extension) option \<Rightarrow> 'c \<Rightarrow> 'c dyn \<Rightarrow> (error + 'c response) \<times> 'c dyn" where
  "consult found c d =
     (case found of
        None \<Rightarrow> (Inr MessageSentInGroup, d)
      | Some (g, ext) \<Rightarrow>
          (case ext c of
             Inl e \<Rightarrow> (Inl e, d\<lparr>calls := calls d @ [(g, c)]\<rparr>)
           | Inr None \<Rightarrow> (Inr MessageSentInGroup, d\<lparr>calls := calls d @ [(g, c)]\<rparr>)
           | Inr (Some r) \<Rightarrow> (Inr r, d\<lparr>calls := calls d @ [(g, c)]\<rparr>)))"

text \<open>\<open>reciever.messages.appendleft(Message(group, content)); reciever._notification.notify_all()\<close>.\<close>

definition deliver :: "unit outcome \<Rightarrow> 'c message \<Rightarrow> mbox \<Rightarrow> 'c dyn \<Rightarrow> unit outcome \<times> 'c dyn" where
  "deliver rf msg r d =
     (case notify_all rf (notification (boxes d r), locks d) of
        (out, (ws, st)) \<Rightarrow>
          (out, d\<lparr>boxes := (boxes d)(r := \<lparr>messages = msg # messages (boxes d r), notification = ws\<rparr>),
                  locks := st\<rparr>))"

fun deliver_all ::
  "unit outcome \<Rightarrow> 'c message \<Rightarrow> mbox list \<Rightarrow> 'c dyn \<Rightarrow> unit outcome \<times> 'c dyn" where
  "deliver_all rf msg [] d = (Returns (), d)"
| "deliver_all rf msg (r # rs) d =
     (case deliver rf msg r d of
        (Returns u, d') \<Rightarrow> deliver_all rf msg rs d'
      | (out, d') \<Rightarrow> (out, d'))"

text \<open>Sequencing: the next statement runs when the one before has returned.\<close>

definition and_then ::
  "(unit outcome \<times> 's) option \<Rightarrow> ('s \<Rightarrow> (unit outcome \<times> 's) option) \<Rightarrow> (unit outcome \<times> 's) option" where
  "and_then m k =
     (case m of
        None \<Rightarrow> None
      | Some (Returns u, s) \<Rightarrow> k s
      | Some (out, s) \<Rightarrow> Some (out, s))"

text \<open>
  \<open>Mailbox.send(group, content, exclude)\<close>. The first argument bounds the depth of the
  nested calls, as Python's recursion limit does: \<open>None\<close> is a call that needs more. 
  \<open>send_each\<close> is a loop of calls over a list of groups.
\<close>

fun send ::
  "nat \<Rightarrow> unit outcome \<Rightarrow> 'c bus \<Rightarrow> addr \<Rightarrow> 'c \<Rightarrow> addr list \<Rightarrow> 'c dyn \<Rightarrow> (unit outcome \<times> 'c dyn) option"
and send_each ::
  "nat \<Rightarrow> unit outcome \<Rightarrow> 'c bus \<Rightarrow> addr list \<Rightarrow> 'c \<Rightarrow> addr list \<Rightarrow> 'c dyn \<Rightarrow> (unit outcome \<times> 'c dyn) option"
where
  "send 0 rf b g c exclude d = None"
| "send (Suc n) rf b g c exclude d =
     (if g \<in> set exclude then Some (Returns (), d)
      else
        (case map_of (chats b) g of
           None \<Rightarrow> Some (Returns (), d)
         | Some receivers \<Rightarrow>
             (case find_extension b (Some g) of
                None \<Rightarrow> None
              | Some found \<Rightarrow>
                  (case consult found c d of
                     (Inl e, d1) \<Rightarrow> Some (Raises e, d1)
                   | (Inr response, d1) \<Rightarrow>
                       and_then
                         (if \<not> cancel response then
                            and_then (Some (deliver_all rf \<lparr>group = g, content = data_transform response c\<rparr> receivers d1))
                              (\<lambda>d2. and_then
                                 (case parent (objs (heap b) g) of
                                    None \<Rightarrow> Some (Returns (), d2)
                                  | Some p \<Rightarrow>
                                      (if p \<notin> set exclude
                                       then send n rf b p (data_transform response c) (g # exclude) d2
                                       else Some (Returns (), d2)))
                                 (\<lambda>d3. send_each n rf b
                                    (filter (\<lambda>child. child \<notin> set exclude) (children (objs (heap b) g)))
                                    (data_transform response c) (g # exclude) d3))
                          else Some (Returns (), d1))
                         (\<lambda>d4. send_each n rf b (forward_to response) (data_transform response c) [g] d4)))))"
| "send_each n rf b [] c exclude d = Some (Returns (), d)"
| "send_each n rf b (other # others) c exclude d =
     and_then (send n rf b other c exclude d) (\<lambda>d'. send_each n rf b others c exclude d')"


text \<open>The state in which every mailbox is new.\<close>

definition no_locks :: mutex_store where
  "no_locks = \<lparr>held = (\<lambda>l. False), fresh = 0\<rparr>"

definition start :: "'c dyn" where
  "start = \<lparr>boxes = (\<lambda>m. \<lparr>messages = [], notification = []\<rparr>), locks = no_locks, calls = []\<rparr>"

section \<open>What \<open>Group(name)\<close> builds\<close>

text \<open>\<open>grows h h'\<close>: the heap \<open>h'\<close> has the objects of \<open>h\<close>, unchanged, and maybe more.\<close>

definition grows :: "group_heap \<Rightarrow> group_heap \<Rightarrow> bool" where
  "grows h h' = (groups h' = groups h \<and> next_obj h \<le> next_obj h'
      \<and> (\<forall>x<next_obj h. objs h' x = objs h x))"

lemma grows_refl: "grows h h"
  by (simp add: grows_def)

lemma grows_trans: "grows h h' \<Longrightarrow> grows h' h'' \<Longrightarrow> grows h h''"
  by (auto simp: grows_def)

lemma grows_children_add: "grows h h' \<Longrightarrow> next_obj h \<le> a \<Longrightarrow> grows h (children_add a s h')"
  by (auto simp: grows_def children_add_def)

lemma grows_set_parent: "grows h h' \<Longrightarrow> next_obj h \<le> s \<Longrightarrow> grows h (set_parent s p h')"
  by (auto simp: grows_def set_parent_def)

text \<open>
  What a construction yields on a heap whose table \<open>Group.groups\<close> is empty: a new object
  at the next address, without children, whose parent (if any) is a newer object without
  children and without parent. The object carries the canonical name; the parent of a
  name of several segments that is not a wildcard carries the wildcard name of its prefix.
\<close>

definition built :: "string \<Rightarrow> group_heap \<Rightarrow> (error + addr) \<times> group_heap \<Rightarrow> bool" where
  "built nm h res =
     (case res of (r, h') \<Rightarrow>
        grows h h' \<and> next_obj h < next_obj h'
      \<and> r = (if canonical_parts nm = [] then Inl IndexError else Inr (next_obj h))
      \<and> children (objs h' (next_obj h)) = []
      \<and> (case parent (objs h' (next_obj h)) of
            None \<Rightarrow> True
          | Some p \<Rightarrow> next_obj h < p \<and> p < next_obj h'
              \<and> children (objs h' p) = [] \<and> parent (objs h' p) = None)
      \<and> (length (canonical_parts nm) \<le> 1 \<or> last (canonical_parts nm) = ''...''
            \<longrightarrow> parent (objs h' (next_obj h)) = None)
      \<and> name (objs h' (next_obj h)) = join ''/'' (canonical_parts nm)
      \<and> (1 < length (canonical_parts nm) \<and> last (canonical_parts nm) \<noteq> ''...''
            \<longrightarrow> (case parent (objs h' (next_obj h)) of
                   None \<Rightarrow> False
                 | Some p \<Rightarrow>
                     name (objs h' p) = join ''/'' (butlast (canonical_parts nm) @ [''...'']))))"

lemma Group_new_built: "groups h = Map.empty \<Longrightarrow> built nm h (Group_new hash nm h)"
proof (induction hash nm h rule: Group_new.induct)
  case (1 hash nm h)
  note empty = \<open>groups h = Map.empty\<close>
  let ?parts = "canonical_parts nm"
  let ?self = "next_obj h"
  let ?h1 = "h\<lparr>objs := (objs h)(?self :=
                        \<lparr>gid = hash (join ''/'' ?parts), parent = None, children = [],
                         name = join ''/'' ?parts\<rparr>),
                      next_obj := ?self + 1\<rparr>"
  let ?step = "(\<lambda>idx (a, h').
                   (case a of
                      None \<Rightarrow>
                        (case Group_new hash (join ''/'' (take idx ?parts)) h' of
                           (Inl e, h'') \<Rightarrow> (Some e, h'')
                         | (Inr a, h'') \<Rightarrow> (None, children_add a ?self h''))
                    | Some e \<Rightarrow> (Some e, h')))"
  have segs: "\<And>p. p \<in> set ?parts \<Longrightarrow> segment p"
    by (simp add: canonical_parts_segments)
  have h1: "grows h ?h1" "groups ?h1 = Map.empty" "next_obj ?h1 = ?self + 1"
    "children (objs ?h1 ?self) = []" "parent (objs ?h1 ?self) = None"
    "name (objs ?h1 ?self) = join ''/'' ?parts"
    by (simp_all add: grows_def empty)
  have prefix: "built (join ''/'' (take idx ?parts)) h' (Group_new hash (join ''/'' (take idx ?parts)) h')"
    if "idx \<in> set [1..<length ?parts]" "groups h' = Map.empty" for idx h'
    using "1.IH"(1) [OF _ refl refl refl _ refl, of idx h'] that empty
    by simp
  have loop: "\<exists>h''. fold ?step ixs (None, h') = (None, h'') \<and> grows h' h''"
    if "set ixs \<subseteq> set [1..<length ?parts]" "groups h' = Map.empty" for ixs h'
    using that
  proof (induction ixs arbitrary: h')
    case Nil
    then show ?case by (simp add: grows_refl)
  next
    case (Cons idx ixs)
    then have idx: "idx \<in> set [1..<length ?parts]" by simp
    have cp: "canonical_parts (join ''/'' (take idx ?parts)) = take idx ?parts"
      by (intro canonical_parts_join) (auto dest: in_set_takeD segs)
    have "take idx ?parts \<noteq> []" using idx by auto
    with prefix [OF idx Cons.prems(2)] cp
    obtain hx where hx: "Group_new hash (join ''/'' (take idx ?parts)) h' = (Inr (next_obj h'), hx)"
      and g: "grows h' hx"
      by (cases "Group_new hash (join ''/'' (take idx ?parts)) h'") (auto simp: built_def)
    let ?hy = "children_add (next_obj h') ?self hx"
    have gy: "grows h' ?hy" using g by (simp add: grows_children_add)
    then have "groups ?hy = Map.empty" using Cons.prems(2) by (simp add: grows_def)
    with Cons.IH [of ?hy] Cons.prems(1)
    obtain h'' where "fold ?step ixs (None, ?hy) = (None, h'')" "grows ?hy h''" by auto
    moreover have "?step idx (None, h') = (None, ?hy)" by (simp add: hx)
    ultimately show ?case using gy by (auto intro: grows_trans)
  qed
  from loop [of "[1..<length ?parts]" ?h1] h1(2)
  obtain h2 where h2: "fold ?step [1..<length ?parts] (None, ?h1) = (None, h2)" and g12: "grows ?h1 h2"
    by auto
  have g2: "grows h h2" using h1(1) g12 by (rule grows_trans)
  have self2: "objs h2 ?self = objs ?h1 ?self" "?self < next_obj h2" "groups h2 = Map.empty"
    using g12 h1 by (auto simp: grows_def)
  have unfold: "Group_new hash nm h =
      (if ?parts = [] then (Inl IndexError, h2)
       else if 1 < length ?parts \<and> last ?parts \<noteq> ''...'' then
         (case Group_new hash (join ''/'' (butlast ?parts) @ ''/...'') h2 of
            (Inl e, h3) \<Rightarrow> (Inl e, h3)
          | (Inr p, h3) \<Rightarrow> (Inr ?self, set_parent ?self p h3))
       else (Inr ?self, h2))"
    using h2 empty
    by (subst Group_new.simps) (simp add: Let_def)
  show ?case
  proof (cases "?parts \<noteq> [] \<and> 1 < length ?parts \<and> last ?parts \<noteq> ''...''")
    case False
    then show ?thesis
      using unfold g2 self2 h1 by (auto simp: built_def)
  next
    case True
    let ?wild = "join ''/'' (butlast ?parts) @ ''/...''"
    have cw: "canonical_parts ?wild = butlast ?parts @ [''...'']"
      by (intro canonical_parts_wildcard) (auto dest: in_set_butlastD segs)
    have "built ?wild h2 (Group_new hash ?wild h2)"
      using "1.IH"(2) [OF _ refl refl refl refl _ refl, of h2] True h2 empty self2(3)
      by simp
    with cw obtain h3 where h3: "Group_new hash ?wild h2 = (Inr (next_obj h2), h3)"
      and g23: "grows h2 h3" and n23: "next_obj h2 < next_obj h3"
      and wc: "children (objs h3 (next_obj h2)) = []" and wp: "parent (objs h3 (next_obj h2)) = None"
      and wn: "name (objs h3 (next_obj h2)) = join ''/'' (butlast ?parts @ [''...''])"
      by (cases "Group_new hash ?wild h2") (auto simp: built_def)
    have res: "Group_new hash nm h = (Inr ?self, set_parent ?self (next_obj h2) h3)"
      using unfold True h3 by simp
    have self3: "objs h3 ?self = objs ?h1 ?self"
      using g23 self2 by (auto simp: grows_def)
    show ?thesis
      unfolding res built_def
      using True g2 g23 n23 wc wp wn self3 self2 h1
      by (auto simp: set_parent_def intro!: grows_set_parent grows_trans [OF g2 g23]
          simp: grows_def)
  qed
qed

section \<open>Interning\<close>

lemma canonical_idempotent: "canonical (canonical nm) = canonical nm"
  by (simp add: canonical_def canonical_parts_join canonical_parts_segments)

text \<open>
  C6. Constructing \<open>Group("a")\<close> twice does not return the same object: nothing is ever
  stored in \<open>Group.groups\<close>, so the second construction allocates a second object, at
  address 1, with the same name as the first, at address 0.
\<close>

theorem Group_same_name_twice:
  "(case Group_new hash ''a'' empty_heap of
      (r1, h1) \<Rightarrow>
        (case Group_new hash ''a'' h1 of
           (r2, h2) \<Rightarrow> (r1, r2, groups h2 ''a'', name (objs h2 0), name (objs h2 1))))
   = (Inr 0, Inr 1, None, ''a'', ''a'')"
  by code_simp

lemma Group_new_never_interned:
  assumes "groups h = Map.empty" and "canonical_parts nm \<noteq> []"
  shows "fst (Group_new hash nm h) = Inr (next_obj h)
       \<and> fst (Group_new hash nm (snd (Group_new hash nm h))) = Inr (next_obj (snd (Group_new hash nm h)))
       \<and> next_obj h < next_obj (snd (Group_new hash nm h))"
proof -
  obtain r h' where res: "Group_new hash nm h = (r, h')" by (cases "Group_new hash nm h")
  have b: "built nm h (r, h')" using Group_new_built [OF assms(1), of nm hash] res by simp
  then have e': "groups h' = Map.empty" using assms(1) by (simp add: built_def grows_def)
  obtain r2 h2 where res2: "Group_new hash nm h' = (r2, h2)" by (cases "Group_new hash nm h'")
  have "built nm h' (r2, h2)" using Group_new_built [OF e', of nm hash] res2 by simp
  with b assms(2) show ?thesis by (simp add: res res2 built_def)
qed

text \<open>
  A mailbox subscribed through the first object is not found through the second one: the
  second \<open>Group("a")\<close> is not a key of the subscription table.
\<close>

lemma second_object_is_another_key:
  "(case Group_new hash ''a'' empty_heap of
      (r1, h1) \<Rightarrow>
        (case Group_new hash ''a'' h1 of
           (r2, h2) \<Rightarrow>
             (case (r1, r2) of
                (Inr g1, Inr g2) \<Rightarrow> (map_of (subscribe 0 g1 []) g1, map_of (subscribe 0 g1 []) g2)
              | _ \<Rightarrow> (None, None))))
   = (Some [0], None)"
  by code_simp

section \<open>The inbox\<close>







section \<open>Sending\<close>

text \<open>The equation of a call of \<open>send\<close> is unfolded by hand.\<close>

declare send.simps(2) [simp del]

lemma and_then_simps [simp]:
  "and_then None k = None"
  "and_then (Some (Returns u, s)) k = k s"
  "and_then (Some (Raises e, s)) k = Some (Raises e, s)"
  "and_then (Some (Blocks, s)) k = Some (Blocks, s)"
  by (simp_all add: and_then_def)

lemma and_then_return: "and_then m (\<lambda>s. Some (Returns (), s)) = m"
  by (cases m rule: option.exhaust; simp) (auto simp: and_then_def split: outcome.splits)

lemma send_each_Nil_fun: "(\<lambda>s. send_each n rf b [] c ex s) = (\<lambda>s. Some (Returns (), s))"
  by (cases n) auto

lemma consult_None: "consult None c d = (Inr MessageSentInGroup, d)"
  by (simp add: consult_def)



text \<open>
  A bus for the examples: the heap that \<open>Group("a/b")\<close> builds (the group at address 0,
  its wildcard parent \<open>a/...\<close> at address 2); mailbox 7 is subscribed to the wildcard
  parent, and the group itself has an empty set of subscribers.
\<close>

definition quiet_heap :: group_heap where
  "quiet_heap = snd (Group_new (\<lambda>s. 0) ''a/b'' empty_heap)"




lemma find_extension_top: "find_extension b None = Some None"
  by (subst find_extension.simps) simp

lemma find_extension_up:
  "extensions b g = None \<Longrightarrow> find_extension b (Some g) = find_extension b (parent (objs (heap b) g))"
  by (subst find_extension.simps) simp

lemma find_extension_here:
  "extensions b g = Some ext \<Longrightarrow> find_extension b (Some g) = Some (Some (g, ext))"
  by (subst find_extension.simps) simp



lemma notify_all_no_waiters: "notify_all rf ([], st) = (Returns (), ([], st))"
  by (simp add: notify_all_def notify_def)


section \<open>Hierarchical delivery\<close>

lemma send_to_built_group:
  assumes subs: "map_of (chats b) g = Some rs"
    and no_ext: "extensions b = Map.empty"
    and no_children: "children (objs (heap b) g) = []"
    and up: "case parent (objs (heap b) g) of
               None \<Rightarrow> True
             | Some p \<Rightarrow> p \<noteq> g \<and> map_of (chats b) p = None \<and> parent (objs (heap b) p) = None"
  shows "send (Suc (Suc n)) rf b g c [] d = Some (deliver_all rf \<lparr>group = g, content = c\<rparr> rs d)"
proof -
  have found: "find_extension b (Some g) = Some None"
    using up no_ext
    by (cases "parent (objs (heap b) g)") (simp_all add: find_extension_up find_extension_top)
  obtain out d1 where del: "deliver_all rf \<lparr>group = g, content = c\<rparr> rs d = (out, d1)"
    by (cases "deliver_all rf \<lparr>group = g, content = c\<rparr> rs d")
  have parent_step: "(case parent (objs (heap b) g) of
        None \<Rightarrow> Some (Returns (), d1)
      | Some p \<Rightarrow> (if p \<notin> set [] then send (Suc n) rf b p c [g] d1 else Some (Returns (), d1)))
      = Some (Returns (), d1)"
    using up by (cases "parent (objs (heap b) g)") (auto simp: send.simps(2))
  show ?thesis
    using parent_step
    by (cases out)
      (simp_all add: send.simps(2) [of "Suc n"] subs found consult_None MessageSentInGroup_def del
        no_children send_each_Nil_fun and_then_return cong: option.case_cong if_cong)
qed

text \<open>
  The scenario: mailbox 0 (M) subscribes to \<open>Group("a/b/c")\<close>, mailbox 1 (N) to
  \<open>Group("a/b/c/d")\<close>, and the content is sent to the group that N subscribed to. The
  result is the outcome of \<open>send\<close> with the inboxes of M and N.
\<close>

definition hierarchical_delivery ::
  "(string \<Rightarrow> int) \<Rightarrow> unit outcome \<Rightarrow> 'c \<Rightarrow> nat
    \<Rightarrow> (unit outcome \<times> 'c message list \<times> 'c message list) option" where
  "hierarchical_delivery hash rf c n =
     (case Group_new hash ''a/b/c'' empty_heap of
        (Inr gm, h1) \<Rightarrow>
          (case Group_new hash ''a/b/c/d'' h1 of
             (Inr gn, h2) \<Rightarrow>
               map_option (\<lambda>(out, d). (out, messages (boxes d 0), messages (boxes d 1)))
                 (send n rf \<lparr>heap = h2, extensions = Map.empty,
                              chats = subscribe 1 gn (subscribe 0 gm [])\<rparr> gn c [] start)
           | (Inl e, h2) \<Rightarrow> None)
      | (Inl e, h1) \<Rightarrow> None)"

text \<open>The address of the group that N subscribes to.\<close>

definition group_of_N :: "(string \<Rightarrow> int) \<Rightarrow> addr" where
  "group_of_N hash = next_obj (snd (Group_new hash ''a/b/c'' empty_heap))"

lemma hierarchical_delivery_result:
  "hierarchical_delivery hash rf c (Suc (Suc n))
     = Some (Returns (), [], [\<lparr>group = group_of_N hash, content = c\<rparr>])"
proof -
  obtain r1 h1 where res1: "Group_new hash ''a/b/c'' empty_heap = (r1, h1)"
    by (cases "Group_new hash ''a/b/c'' empty_heap")
  obtain r2 h2 where res2: "Group_new hash ''a/b/c/d'' h1 = (r2, h2)"
    by (cases "Group_new hash ''a/b/c/d'' h1")
  have b1: "built ''a/b/c'' empty_heap (r1, h1)"
    using Group_new_built [of empty_heap "''a/b/c''" hash] res1 by (simp add: empty_heap_def)
  then have e1: "groups h1 = Map.empty" by (simp add: built_def grows_def empty_heap_def)
  have b2: "built ''a/b/c/d'' h1 (r2, h2)"
    using Group_new_built [OF e1, of "''a/b/c/d''" hash] res2 by simp
  have r1: "r1 = Inr 0" and pos: "0 < next_obj h1"
    using b1 by (simp_all add: built_def canonical_parts_def empty_heap_def)
  have r2: "r2 = Inr (next_obj h1)"
    using b2 by (simp add: built_def canonical_parts_def)
  let ?gn = "next_obj h1"
  let ?ch = "[(0, [0]), (?gn, [1])]"
  let ?b = "\<lparr>heap = h2, extensions = Map.empty, chats = ?ch\<rparr> :: 'a bus"
  have sub: "subscribe (Suc 0) ?gn (subscribe 0 0 []) = ?ch"
    using pos by (simp add: subscribe_def)
  have "send (Suc (Suc n)) rf ?b ?gn c [] start
      = Some (deliver_all rf \<lparr>group = ?gn, content = c\<rparr> [1] start)"
  proof (rule send_to_built_group)
    show "map_of (chats ?b) ?gn = Some [1]" using pos by simp
    show "extensions ?b = Map.empty" by simp
    show "children (objs (heap ?b) ?gn) = []" using b2 by (simp add: built_def)
    show "case parent (objs (heap ?b) ?gn) of
            None \<Rightarrow> True
          | Some p \<Rightarrow> p \<noteq> ?gn \<and> map_of (chats ?b) p = None \<and> parent (objs (heap ?b) p) = None"
      using b2 pos by (auto simp: built_def split: option.splits)
  qed
  then show ?thesis
    by (simp add: hierarchical_delivery_def res1 res2 r1 r2 group_of_N_def sub deliver_def
        notify_all_no_waiters start_def)
qed

lemma send_up_to_parent:
  assumes subs: "map_of (chats b) g = Some rs"
    and no_ext: "extensions b = Map.empty"
    and no_children: "children (objs (heap b) g) = []"
    and up: "parent (objs (heap b) g) = Some p" "p \<noteq> g"
    and psubs: "map_of (chats b) p = Some ps"
    and top: "parent (objs (heap b) p) = None" "children (objs (heap b) p) = []"
  shows "send (Suc (Suc n)) rf b g c [] d
      = and_then (Some (deliver_all rf \<lparr>group = g, content = c\<rparr> rs d))
          (\<lambda>d2. Some (deliver_all rf \<lparr>group = p, content = c\<rparr> ps d2))"
proof -
  have found_p: "find_extension b (Some p) = Some None"
    using top no_ext by (simp add: find_extension_up find_extension_top)
  have found: "find_extension b (Some g) = Some None"
    using up no_ext found_p by (simp add: find_extension_up)
  have nested: "send (Suc n) rf b p c [g] d2 = Some (deliver_all rf \<lparr>group = p, content = c\<rparr> ps d2)"
    for d2
  proof -
    obtain out d3 where del: "deliver_all rf \<lparr>group = p, content = c\<rparr> ps d2 = (out, d3)"
      by (cases "deliver_all rf \<lparr>group = p, content = c\<rparr> ps d2")
    show ?thesis
      using up(2)
      by (cases out)
        (simp_all add: send.simps(2) [of n] psubs found_p consult_None MessageSentInGroup_def del
          top send_each_Nil_fun and_then_return)
  qed
  obtain out d1 where del: "deliver_all rf \<lparr>group = g, content = c\<rparr> rs d = (out, d1)"
    by (cases "deliver_all rf \<lparr>group = g, content = c\<rparr> rs d")
  show ?thesis
    by (cases out)
      (simp_all add: send.simps(2) [of "Suc n"] subs found consult_None MessageSentInGroup_def del
        no_children up nested send_each_Nil_fun and_then_return)
qed

text \<open>The heap of the scenario, after the two constructions.\<close>

definition hierarchical_heap :: "(string \<Rightarrow> int) \<Rightarrow> group_heap" where
  "hierarchical_heap hash =
     snd (Group_new hash ''a/b/c/d'' (snd (Group_new hash ''a/b/c'' empty_heap)))"

text \<open>
  The scenario with an observer: mailbox 2 (W) is subscribed to the parent of the group
  of N, the attribute \<open>parent\<close> of that \<open>Group\<close> object. The result is the outcome of
  \<open>send\<close> with the inboxes of M, N and W.
\<close>

definition watched_delivery ::
  "(string \<Rightarrow> int) \<Rightarrow> unit outcome \<Rightarrow> 'c \<Rightarrow> nat
    \<Rightarrow> (unit outcome \<times> 'c message list \<times> 'c message list \<times> 'c message list) option" where
  "watched_delivery hash rf c n =
     (case Group_new hash ''a/b/c'' empty_heap of
        (Inr gm, h1) \<Rightarrow>
          (case Group_new hash ''a/b/c/d'' h1 of
             (Inr gn, h2) \<Rightarrow>
               (case parent (objs h2 gn) of
                  Some p \<Rightarrow>
                    map_option
                      (\<lambda>(out, d). (out, messages (boxes d 0), messages (boxes d 1), messages (boxes d 2)))
                      (send n rf \<lparr>heap = h2, extensions = Map.empty,
                                   chats = subscribe 2 p (subscribe 1 gn (subscribe 0 gm []))\<rparr>
                         gn c [] start)
                | None \<Rightarrow> None)
           | (Inl e, h2) \<Rightarrow> None)
      | (Inl e, h1) \<Rightarrow> None)"

text \<open>
  C2 (as amended). In the scenario the message is delivered exactly once to N and not at
  all to M. The group of N, \<open>a/b/c/d\<close>, has no children, and its parent is the wildcard
  \<open>a/b/c/...\<close>, an object other than the group of M, without parent and without children.
  The upward propagation is the \<open>send\<close> to that wildcard: nothing is subscribed to it in
  the scenario, and a mailbox W that is subscribed to it receives the message, once, while
  M still receives nothing.
\<close>

theorem hierarchical_delivery_stops_at_wildcard_parent:
  "hierarchical_delivery hash rf c (Suc (Suc n))
     = Some (Returns (), [], [\<lparr>group = group_of_N hash, content = c\<rparr>])
 \<and> fst (Group_new hash ''a/b/c'' empty_heap) = Inr 0
 \<and> name (objs (hierarchical_heap hash) 0) = ''a/b/c''
 \<and> name (objs (hierarchical_heap hash) (group_of_N hash)) = ''a/b/c/d''
 \<and> children (objs (hierarchical_heap hash) (group_of_N hash)) = []
 \<and> (\<exists>p. parent (objs (hierarchical_heap hash) (group_of_N hash)) = Some p
        \<and> p \<noteq> 0 \<and> p \<noteq> group_of_N hash
        \<and> name (objs (hierarchical_heap hash) p) = ''a/b/c/...''
        \<and> parent (objs (hierarchical_heap hash) p) = None
        \<and> children (objs (hierarchical_heap hash) p) = []
        \<and> watched_delivery hash rf c (Suc (Suc n))
            = Some (Returns (), [], [\<lparr>group = group_of_N hash, content = c\<rparr>],
                    [\<lparr>group = p, content = c\<rparr>]))"
proof -
  obtain r1 h1 where res1: "Group_new hash ''a/b/c'' empty_heap = (r1, h1)"
    by (cases "Group_new hash ''a/b/c'' empty_heap")
  obtain r2 h2 where res2: "Group_new hash ''a/b/c/d'' h1 = (r2, h2)"
    by (cases "Group_new hash ''a/b/c/d'' h1")
  have b1: "built ''a/b/c'' empty_heap (r1, h1)"
    using Group_new_built [of empty_heap "''a/b/c''" hash] res1 by (simp add: empty_heap_def)
  then have e1: "groups h1 = Map.empty" by (simp add: built_def grows_def empty_heap_def)
  have b2: "built ''a/b/c/d'' h1 (r2, h2)"
    using Group_new_built [OF e1, of "''a/b/c/d''" hash] res2 by simp
  have r1: "r1 = Inr 0" and pos: "0 < next_obj h1" and nm: "name (objs h1 0) = ''a/b/c''"
    using b1 by (simp_all add: built_def canonical_parts_def empty_heap_def)
  have r2: "r2 = Inr (next_obj h1)"
    using b2 by (simp add: built_def canonical_parts_def)
  let ?gn = "next_obj h1"
  have heap: "hierarchical_heap hash = h2" and gn: "group_of_N hash = ?gn"
    by (simp_all add: hierarchical_heap_def group_of_N_def res1 res2)
  have old: "objs h2 0 = objs h1 0"
    using b2 pos by (simp add: built_def grows_def)
  have own: "name (objs h2 ?gn) = ''a/b/c/d''" "children (objs h2 ?gn) = []"
    using b2 by (simp_all add: built_def canonical_parts_def)
  obtain p where p: "parent (objs h2 ?gn) = Some p" "?gn < p"
    "name (objs h2 p) = ''a/b/c/...''" "parent (objs h2 p) = None" "children (objs h2 p) = []"
    using b2 by (cases "parent (objs h2 ?gn)") (simp_all add: built_def canonical_parts_def)
  let ?ch = "[(0, [0]), (?gn, [1]), (p, [2])]"
  let ?b = "\<lparr>heap = h2, extensions = Map.empty, chats = ?ch\<rparr> :: 'a bus"
  have sub: "subscribe 2 p (subscribe (Suc 0) ?gn (subscribe 0 0 [])) = ?ch"
    using pos p(2) by (simp add: subscribe_def)
  have "send (Suc (Suc n)) rf ?b ?gn c [] start
      = and_then (Some (deliver_all rf \<lparr>group = ?gn, content = c\<rparr> [1] start))
          (\<lambda>d2. Some (deliver_all rf \<lparr>group = p, content = c\<rparr> [2] d2))"
    by (rule send_up_to_parent) (use pos p own in simp_all)
  then have watched: "watched_delivery hash rf c (Suc (Suc n))
      = Some (Returns (), [], [\<lparr>group = ?gn, content = c\<rparr>], [\<lparr>group = p, content = c\<rparr>])"
    by (simp add: watched_delivery_def res1 res2 r1 r2 p(1) sub deliver_def
        notify_all_no_waiters start_def)
  show ?thesis
    using hierarchical_delivery_result [of hash rf c n] p pos own nm old watched
    by (simp add: heap gn res1 r1)
qed

text \<open>
  The claim C2 as stated fails: after the \<open>send\<close> the inbox of M does not hold exactly one
  message.
\<close>

theorem hierarchical_delivery_M_not_once:
  "\<not> (\<exists>out m at_N.
        hierarchical_delivery (\<lambda>s. 0) (Returns ()) (7 :: nat) (Suc (Suc 0)) = Some (out, [m], at_N))"
  by (simp add: hierarchical_delivery_result)

section \<open>Termination of \<open>send\<close>\<close>

lemma and_then_Some:
  assumes "m = Some (out, s)" and "\<And>s'. \<exists>r. k s' = Some r"
  shows "\<exists>r. and_then m k = Some r"
  using assms by (cases out) simp_all

lemma Lock_release_Returns: "fst (Lock_release (Returns ()) w st) = Returns ()"
  by (simp add: Lock_release_def MutexLock_release_def)

lemma notify_loop_Returns:
  "n \<le> length ws \<Longrightarrow> fst (notify_loop (Returns ()) n (ws, st)) = Returns ()"
proof (induction n arbitrary: ws st)
  case 0
  then show ?case by simp
next
  case (Suc n)
  then obtain w ws' where ws: "ws = w # ws'" by (cases ws) auto
  obtain st' where "Lock_release (Returns ()) w st = (Returns (), st')"
    using Lock_release_Returns [of w st] by (cases "Lock_release (Returns ()) w st") auto
  then show ?case using Suc ws by simp
qed

lemma deliver_Returns: "fst (deliver (Returns ()) msg r d) = Returns ()"
  using notify_loop_Returns [of "length (notification (boxes d r))" "notification (boxes d r)" "locks d"]
  by (auto simp: deliver_def notify_all_def notify_def split: prod.splits)

lemma deliver_all_Returns: "fst (deliver_all (Returns ()) msg rs d) = Returns ()"
proof (induction rs arbitrary: d)
  case Nil
  then show ?case by simp
next
  case (Cons r rs)
  obtain d' where "deliver (Returns ()) msg r d = (Returns (), d')"
    using deliver_Returns [of msg r d] by (cases "deliver (Returns ()) msg r d") auto
  then show ?case using Cons by simp
qed

text \<open>
  Two groups, \<open>Group("a")\<close> at address 0 and \<open>Group("b")\<close> at address 1, each with a
  subscriber and with an extension whose policy forwards to the other group.
\<close>

definition forwarding_heap :: group_heap where
  "forwarding_heap = snd (Group_new (\<lambda>s. 0) ''b'' (snd (Group_new (\<lambda>s. 0) ''a'' empty_heap)))"

definition forward_policy :: "addr \<Rightarrow> nat extension" where
  "forward_policy other = (\<lambda>c. Inr (Some \<lparr>cancel = False, forward_to = [other], data_transform = (\<lambda>x. x)\<rparr>))"

definition forwarding_cycle :: "nat bus" where
  "forwarding_cycle = \<lparr>heap = forwarding_heap,
      extensions = [0 \<mapsto> forward_policy 1, 1 \<mapsto> forward_policy 0],
      chats = [(0, [0]), (1, [1])]\<rparr>"

lemma forwarding_heap_objects:
  "parent (objs forwarding_heap 0) = None" "children (objs forwarding_heap 0) = []"
  "parent (objs forwarding_heap 1) = None" "children (objs forwarding_heap 1) = []"
  "name (objs forwarding_heap 0) = ''a''" "name (objs forwarding_heap 1) = ''b''"
  unfolding forwarding_heap_def by code_simp+

lemma forwarding_cycle_step:
  assumes "g = 0 \<and> other = 1 \<or> g = 1 \<and> other = 0" and "g \<notin> set ex"
  shows "\<exists>d'. send (Suc n) (Returns ()) forwarding_cycle g c ex d
      = and_then (send n (Returns ()) forwarding_cycle other c [g] d') (\<lambda>s. Some (Returns (), s))"
proof -
  have bus: "map_of (chats forwarding_cycle) g = Some [g]" "heap forwarding_cycle = forwarding_heap"
    "find_extension forwarding_cycle (Some g) = Some (Some (g, forward_policy other))"
    using assms(1) by (auto simp: forwarding_cycle_def find_extension_here)
  have obj: "parent (objs forwarding_heap g) = None" "children (objs forwarding_heap g) = []"
    using assms(1) by (auto simp: forwarding_heap_objects [unfolded One_nat_def])
  let ?d1 = "d\<lparr>calls := calls d @ [(g, c)]\<rparr>"
  obtain d2 where del: "deliver_all (Returns ()) \<lparr>group = g, content = c\<rparr> [g] ?d1 = (Returns (), d2)"
    using deliver_all_Returns [of "\<lparr>group = g, content = c\<rparr>" "[g]" ?d1]
    by (cases "deliver_all (Returns ()) \<lparr>group = g, content = c\<rparr> [g] ?d1") auto
  have "send (Suc n) (Returns ()) forwarding_cycle g c ex d
      = and_then (send n (Returns ()) forwarding_cycle other c [g] d2) (\<lambda>s. Some (Returns (), s))"
    using assms(2) del
    by (simp add: send.simps(2) bus obj consult_def forward_policy_def send_each_Nil_fun
        del: deliver_all.simps)
  then show ?thesis ..
qed

lemma forwarding_cycle_never_returns:
  "(g = 0 \<and> ex = [1] \<or> g = 1 \<and> ex = [0] \<or> g = 0 \<and> ex = [])
     \<Longrightarrow> send n (Returns ()) forwarding_cycle g c ex d = None"
proof (induction n arbitrary: g ex c d)
  case 0
  then show ?case by simp
next
  case (Suc n)
  define other :: nat where "other = 1 - g"
  have go: "g = 0 \<and> other = 1 \<or> g = 1 \<and> other = 0" and ex: "g \<notin> set ex"
    using Suc.prems by (auto simp: other_def)
  obtain d' where "send (Suc n) (Returns ()) forwarding_cycle g c ex d
      = and_then (send n (Returns ()) forwarding_cycle other c [g] d') (\<lambda>s. Some (Returns (), s))"
    using forwarding_cycle_step [OF go ex] by blast
  moreover have "send n (Returns ()) forwarding_cycle other c [g] d' = None"
    using go by (intro Suc.IH) auto
  ultimately show ?case by simp
qed

lemma and_then_returns:
  assumes "\<exists>r. m = Some r" and "\<And>s'. \<exists>r. k s' = Some r"
  shows "\<exists>r. and_then m k = Some r"
proof -
  obtain out s where "m = Some (out, s)" using assms(1) by auto
  then show ?thesis using assms(2) by (cases out) simp_all
qed

lemma find_extension_ranked:
  assumes "wf {(p, a). parent (objs (heap b) a) = Some p}"
    and up: "\<forall>g p. parent (objs (heap b) g) = Some p \<longrightarrow> rank p \<le> (rank g :: nat)"
  shows "\<exists>r. find_extension b (Some g) = Some r
           \<and> (\<forall>a ext. r = Some (a, ext) \<longrightarrow> extensions b a = Some ext \<and> rank a \<le> rank g)"
  using assms(1)
proof (induction g rule: wf_induct_rule)
  case (less g)
  show ?case
  proof (cases "extensions b g")
    case (Some ext)
    then show ?thesis by (simp add: find_extension_here)
  next
    case None
    note no_ext = this
    show ?thesis
    proof (cases "parent (objs (heap b) g)")
      case None
      then show ?thesis using no_ext by (simp add: find_extension_up find_extension_top)
    next
      case (Some p)
      then have "(p, g) \<in> {(p, a). parent (objs (heap b) a) = Some p}" by simp
      from less.IH [OF this] obtain r where r: "find_extension b (Some p) = Some r"
        "\<forall>a ext. r = Some (a, ext) \<longrightarrow> extensions b a = Some ext \<and> rank a \<le> rank p"
        by blast
      have "rank p \<le> rank g" using up Some by blast
      then have "\<forall>a ext. r = Some (a, ext) \<longrightarrow> extensions b a = Some ext \<and> rank a \<le> rank g"
        using r(2) by (auto intro: order_trans)
      then show ?thesis using no_ext Some r(1) by (simp add: find_extension_up)
    qed
  qed
qed

lemma consult_forwards:
  assumes "\<forall>a ext c r h. extensions b a = Some ext \<longrightarrow> ext c = Inr (Some r)
              \<longrightarrow> h \<in> set (forward_to r) \<longrightarrow> rank h < (rank a :: nat)"
    and "\<forall>a ext. found = Some (a, ext) \<longrightarrow> extensions b a = Some ext \<and> rank a \<le> rank g"
    and "consult found c d = (Inr r, d1)"
  shows "\<forall>h \<in> set (forward_to r). rank h < rank g"
proof (cases found)
  case None
  then show ?thesis using assms(3) by (auto simp: consult_def MessageSentInGroup_def)
next
  case (Some ae)
  obtain a ext where ae: "ae = (a, ext)" by (cases ae)
  have reg: "extensions b a = Some ext" "rank a \<le> rank g" using assms(2) Some ae by simp_all
  show ?thesis
  proof (cases "ext c")
    case (Inl e)
    then show ?thesis using assms(3) Some ae by (simp add: consult_def)
  next
    case (Inr ro)
    show ?thesis
    proof (cases ro)
      case None
      then show ?thesis using assms(3) Some ae Inr by (auto simp: consult_def MessageSentInGroup_def)
    next
      case (Some r')
      then have "r = r'" using assms(3) \<open>found = Some ae\<close> ae Inr by (simp add: consult_def)
      then have "\<forall>h \<in> set (forward_to r). rank h < rank a"
        using assms(1) reg(1) Inr Some by blast
      then show ?thesis using reg(2) by (meson less_le_trans)
    qed
  qed
qed

lemma send_returns_ranked:
  assumes acyclic: "wf {(p, a). parent (objs (heap b) a) = Some p}"
    and up: "\<forall>g p. parent (objs (heap b) g) = Some p \<longrightarrow> rank p \<le> (rank g :: nat)"
    and down: "\<forall>g ch. ch \<in> set (children (objs (heap b) g)) \<longrightarrow> rank ch \<le> rank g"
    and fwd: "\<forall>a ext c r h. extensions b a = Some ext \<longrightarrow> ext c = Inr (Some r)
              \<longrightarrow> h \<in> set (forward_to r) \<longrightarrow> rank h < rank a"
  shows "rank g * (length (chats b) + 1) + card (fst ` set (chats b) - set ex) < n
           \<Longrightarrow> \<exists>r. send n rf b g c ex d = Some r"
proof (induction n arbitrary: g c ex d)
  case 0
  then show ?case by simp
next
  case (Suc n)
  let ?D = "fst ` set (chats b)"
  let ?N = "length (chats b)"
  have cardD: "card (?D - set ex') \<le> ?N" for ex'
  proof -
    have "card (?D - set ex') \<le> card ?D" by (intro card_mono) auto
    also have "\<dots> \<le> card (set (chats b))" by (intro card_image_le) simp
    also have "\<dots> \<le> ?N" by (rule card_length)
    finally show ?thesis .
  qed
  have each: "\<exists>r. send_each n rf b xs c' ex' d' = Some r"
    if small: "\<forall>x \<in> set xs. rank x * (?N + 1) + card (?D - set ex') < n" for xs c' ex' d'
    using small
  proof (induction xs arbitrary: d')
    case Nil
    show ?case by simp
  next
    case (Cons x xs)
    have x: "rank x * (?N + 1) + card (?D - set ex') < n" using Cons.prems by simp
    have xs: "\<forall>x \<in> set xs. rank x * (?N + 1) + card (?D - set ex') < n" using Cons.prems by simp
    show ?case
      unfolding send_each.simps
      by (rule and_then_returns) (use Suc.IH [OF x] Cons.IH [OF xs] in auto)
  qed
  show ?case
  proof (cases "g \<in> set ex \<or> map_of (chats b) g = None")
    case True
    then show ?thesis by (auto simp: send.simps(2))
  next
    case False
    then obtain rs where rs: "map_of (chats b) g = Some rs" and g: "g \<notin> set ex" by auto
    have "g \<in> ?D" using map_of_SomeD [OF rs] by force
    moreover have "?D - set (g # ex) = (?D - set ex) - {g}" by auto
    ultimately have less: "card (?D - set (g # ex)) < card (?D - set ex)"
      using g card_Diff1_less [of "?D - set ex" g] by simp
    have near: "rank x * (?N + 1) + card (?D - set (g # ex)) < n" if "rank x \<le> rank g" for x
    proof -
      have "rank x * (?N + 1) \<le> rank g * (?N + 1)" using that by (rule mult_le_mono1)
      then show ?thesis using less Suc.prems by linarith
    qed
    have far: "rank h * (?N + 1) + card (?D - set [g]) < n" if "rank h < rank g" for h
    proof -
      have "Suc (rank h) * (?N + 1) \<le> rank g * (?N + 1)"
        using that by (intro mult_le_mono1) simp
      then have "rank h * (?N + 1) + ?N + 1 \<le> rank g * (?N + 1)" by simp
      then show ?thesis using cardD [of "[g]"] Suc.prems by linarith
    qed
    obtain found where found: "find_extension b (Some g) = Some found"
      and reg: "\<forall>a ext. found = Some (a, ext) \<longrightarrow> extensions b a = Some ext \<and> rank a \<le> rank g"
      using find_extension_ranked [OF acyclic up, of g] by blast
    obtain res d1 where con: "consult found c d = (res, d1)" by (cases "consult found c d")
    show ?thesis
    proof (cases res)
      case (Inl e)
      then show ?thesis using g by (simp add: send.simps(2) rs found con)
    next
      case (Inr r)
      have fw: "\<forall>h \<in> set (forward_to r). rank h < rank g"
        using consult_forwards [OF fwd reg] con Inr by blast
      let ?c = "data_transform r c"
      have up_call: "\<exists>res. (case parent (objs (heap b) g) of
                  None \<Rightarrow> Some (Returns (), d2)
                | Some p \<Rightarrow> (if p \<notin> set ex then send n rf b p ?c (g # ex) d2
                             else Some (Returns (), d2))) = Some res" for d2
      proof (cases "parent (objs (heap b) g)")
        case None
        then show ?thesis by simp
      next
        case (Some p)
        have "rank p \<le> rank g" using up Some by blast
        from Suc.IH [OF near [OF this]] show ?thesis using Some by auto
      qed
      have down_calls: "\<exists>res. send_each n rf b
                 (filter (\<lambda>child. child \<notin> set ex) (children (objs (heap b) g))) ?c (g # ex) d3
            = Some res" for d3
      proof (rule each, rule ballI)
        fix x assume "x \<in> set (filter (\<lambda>child. child \<notin> set ex) (children (objs (heap b) g)))"
        then have "rank x \<le> rank g" using down by auto
        then show "rank x * (?N + 1) + card (?D - set (g # ex)) < n" by (rule near)
      qed
      have spread: "\<exists>res. and_then
              (case parent (objs (heap b) g) of
                  None \<Rightarrow> Some (Returns (), d2)
                | Some p \<Rightarrow> (if p \<notin> set ex then send n rf b p ?c (g # ex) d2
                             else Some (Returns (), d2)))
              (\<lambda>d3. send_each n rf b
                 (filter (\<lambda>child. child \<notin> set ex) (children (objs (heap b) g))) ?c (g # ex) d3)
            = Some res" for d2
        by (rule and_then_returns [OF up_call]) (rule down_calls)
      have "\<exists>res. and_then
          (if \<not> cancel r then
             and_then (Some (deliver_all rf \<lparr>group = g, content = ?c\<rparr> rs d1))
               (\<lambda>d2. and_then
                  (case parent (objs (heap b) g) of
                      None \<Rightarrow> Some (Returns (), d2)
                    | Some p \<Rightarrow> (if p \<notin> set ex then send n rf b p ?c (g # ex) d2
                                 else Some (Returns (), d2)))
                  (\<lambda>d3. send_each n rf b
                     (filter (\<lambda>child. child \<notin> set ex) (children (objs (heap b) g))) ?c (g # ex) d3))
           else Some (Returns (), d1))
          (\<lambda>d4. send_each n rf b (forward_to r) ?c [g] d4) = Some res"
      proof (rule and_then_returns)
        show "\<exists>ra. (if \<not> cancel r then
             and_then (Some (deliver_all rf \<lparr>group = g, content = ?c\<rparr> rs d1))
               (\<lambda>d2. and_then
                  (case parent (objs (heap b) g) of
                      None \<Rightarrow> Some (Returns (), d2)
                    | Some p \<Rightarrow> (if p \<notin> set ex then send n rf b p ?c (g # ex) d2
                                 else Some (Returns (), d2)))
                  (\<lambda>d3. send_each n rf b
                     (filter (\<lambda>child. child \<notin> set ex) (children (objs (heap b) g))) ?c (g # ex) d3))
           else Some (Returns (), d1)) = Some ra"
        proof (cases "cancel r")
          case True
          then show ?thesis by simp
        next
          case False
          have "\<exists>ra. and_then (Some (deliver_all rf \<lparr>group = g, content = ?c\<rparr> rs d1))
               (\<lambda>d2. and_then
                  (case parent (objs (heap b) g) of
                      None \<Rightarrow> Some (Returns (), d2)
                    | Some p \<Rightarrow> (if p \<notin> set ex then send n rf b p ?c (g # ex) d2
                                 else Some (Returns (), d2)))
                  (\<lambda>d3. send_each n rf b
                     (filter (\<lambda>child. child \<notin> set ex) (children (objs (heap b) g))) ?c (g # ex) d3))
               = Some ra"
            by (rule and_then_returns) (use spread in auto)
          then show ?thesis using False by simp
        qed
        show "\<exists>ra. send_each n rf b (forward_to r) ?c [g] s' = Some ra" for s'
        proof (rule each, rule ballI)
          fix h assume "h \<in> set (forward_to r)"
          then have "rank h < rank g" using fw by blast
          then show "rank h * (?N + 1) + card (?D - set [g]) < n" by (rule far)
        qed
      qed
      then show ?thesis using g by (simp add: send.simps(2) rs found con Inr)
    qed
  qed
qed

text \<open>
  A policy on \<open>Group("a/b")\<close> that forwards to the parent of that group, the wildcard
  \<open>a/...\<close>. Mailbox 0 is subscribed to the group and mailbox 7 to the wildcard.
\<close>

definition forward_to_parent :: "nat bus" where
  "forward_to_parent = \<lparr>heap = quiet_heap, extensions = [0 \<mapsto> forward_policy 2],
      chats = [(0, [0]), (2, [7])]\<rparr>"

text \<open>A rank for that bus: the wildcard below everything else.\<close>

definition below_wildcard :: "addr \<Rightarrow> nat" where
  "below_wildcard a = (if a = 2 then 0 else 1)"

lemma quiet_heap_parents: "parent (objs quiet_heap a) = (if a = 0 then Some 2 else None)"
  unfolding quiet_heap_def by (code_simp, auto)

lemma quiet_heap_children:
  "children (objs quiet_heap a) = (if a = 1 then [0] else if a = 3 then [2] else [])"
  unfolding quiet_heap_def by (code_simp, auto)

lemma forward_to_parent_delivers_twice:
  "map_option (\<lambda>(out, d). (out, messages (boxes d 0), messages (boxes d 7)))
       (send 6 (Returns ()) forward_to_parent 0 (5 :: nat) [] start)
     = Some (Returns (), [\<lparr>group = 0, content = 5\<rparr>],
             [\<lparr>group = 2, content = 5\<rparr>, \<lparr>group = 2, content = 5\<rparr>])"
  by code_simp

text \<open>
  C3 (as amended). When the parent links are acyclic and the forwarding is acyclic, every
  \<open>send\<close> returns (or raises the error of a policy) within a bounded depth of nested
  calls. The forwarding is acyclic when the groups have a rank that no parent link and no
  child link increases and that is smaller for every forward target of a policy than for
  the group the policy is registered for. With \<open>N\<close> groups in the subscription table, a
  depth above \<open>rank g * (N + 1) + N\<close> is enough for a \<open>send\<close> to \<open>g\<close>: a nested call to
  a parent or a child has one more subscribed group in its exclusion list, and a forward
  call, which starts again with the exclusion list \<open>[group]\<close>, is to a group of smaller
  rank. Policies that forward nowhere are the case of the rank that is 0 everywhere.
\<close>

theorem send_terminates_acyclic_forwarding:
  assumes "wf {(p, a). parent (objs (heap b) a) = Some p}"
    and "\<forall>g p. parent (objs (heap b) g) = Some p \<longrightarrow> rank p \<le> (rank g :: nat)"
    and "\<forall>g ch. ch \<in> set (children (objs (heap b) g)) \<longrightarrow> rank ch \<le> rank g"
    and "\<forall>a ext c r h. extensions b a = Some ext \<longrightarrow> ext c = Inr (Some r)
              \<longrightarrow> h \<in> set (forward_to r) \<longrightarrow> rank h < rank a"
    and "rank g * (length (chats b) + 1) + length (chats b) < n"
  shows "\<exists>r. send n rf b g c exclude d = Some r"
proof -
  have "card (fst ` set (chats b) - set exclude) \<le> card (fst ` set (chats b))"
    by (intro card_mono) auto
  also have "\<dots> \<le> card (set (chats b))" by (intro card_image_le) simp
  also have "\<dots> \<le> length (chats b)" by (rule card_length)
  finally have "rank g * (length (chats b) + 1) + card (fst ` set (chats b) - set exclude) < n"
    using assms(5) by simp
  then show ?thesis by (rule send_returns_ranked [OF assms(1-4)])
qed

theorem send_terminates_acyclic_forwarding_witness:
  "\<exists>r. send 6 (Returns ()) forward_to_parent 0 5 [] start = Some r"
proof (rule send_terminates_acyclic_forwarding [where rank = below_wildcard])
  have "{(p, a). parent (objs (heap forward_to_parent) a) = Some p} = {(2, 0)}"
    by (auto simp: forward_to_parent_def quiet_heap_parents split: if_splits)
  then show "wf {(p, a). parent (objs (heap forward_to_parent) a) = Some p}" by simp
  show "\<forall>g p. parent (objs (heap forward_to_parent) g) = Some p
          \<longrightarrow> below_wildcard p \<le> below_wildcard g"
    by (auto simp: forward_to_parent_def quiet_heap_parents below_wildcard_def split: if_splits)
  show "\<forall>g ch. ch \<in> set (children (objs (heap forward_to_parent) g))
          \<longrightarrow> below_wildcard ch \<le> below_wildcard g"
    by (auto simp: forward_to_parent_def quiet_heap_children below_wildcard_def split: if_splits)
  show "\<forall>a ext c r h. extensions forward_to_parent a = Some ext \<longrightarrow> ext c = Inr (Some r)
          \<longrightarrow> h \<in> set (forward_to r) \<longrightarrow> below_wildcard h < below_wildcard a"
    by (auto simp: forward_to_parent_def forward_policy_def below_wildcard_def split: if_splits)
  show "below_wildcard 0 * (length (chats forward_to_parent) + 1) + length (chats forward_to_parent) < 6"
    by (simp add: forward_to_parent_def below_wildcard_def)
qed

text \<open>
  The claim C3 as stated fails, in both of its parts. With two policies forwarding to each
  other, no depth of nested calls is enough for the \<open>send\<close> to return. With the policy
  on \<open>Group("a/b")\<close> that forwards to the parent of that group, the \<open>send\<close> returns and
  has been to the parent twice, once as the parent and once as the forward target: the
  mailbox subscribed to the parent holds the message twice.
\<close>

theorem send_forwarding_loops_or_revisits:
  "\<not> (\<exists>n r. send n (Returns ()) forwarding_cycle 0 (0 :: nat) [] start = Some r)
 \<and> map_option (\<lambda>(out, d). (out, messages (boxes d 0), messages (boxes d 7)))
       (send 6 (Returns ()) forward_to_parent 0 (5 :: nat) [] start)
     = Some (Returns (), [\<lparr>group = 0, content = 5\<rparr>],
             [\<lparr>group = 2, content = 5\<rparr>, \<lparr>group = 2, content = 5\<rparr>])"
proof (intro conjI)
  show "\<not> (\<exists>n r. send n (Returns ()) forwarding_cycle 0 (0 :: nat) [] start = Some r)"
    by (simp add: forwarding_cycle_never_returns)
  show "map_option (\<lambda>(out, d). (out, messages (boxes d 0), messages (boxes d 7)))
       (send 6 (Returns ()) forward_to_parent 0 (5 :: nat) [] start)
     = Some (Returns (), [\<lparr>group = 0, content = 5\<rparr>],
             [\<lparr>group = 2, content = 5\<rparr>, \<lparr>group = 2, content = 5\<rparr>])"
    by (rule forward_to_parent_delivers_twice)
qed

end
